theory Spec2Isabelle
  imports Complex_Main "HOL-Library.Word"
begin

section \<open>Resolution detector (utils/resolution\_detector.py)\<close>

text \<open>
  A resolution is the tuple \<open>(width, height)\<close> of Python integers that
  \<open>get_current_resolution\<close> returns; \<open>None\<close> is the failed probe.
\<close>

type_synonym resolution = "int \<times> int"

subsection \<open>The value that json.loads produces\<close>

text \<open>
  The probe's standard output is parsed by \<open>json.loads\<close>. The parsed value is a
  Python object of one of the JSON kinds; a dict is kept as its list of items (the keys of
  a parsed dict are unique). A float is either a finite number or one of the non-finite
  values that \<open>json.loads\<close> accepts (\<open>NaN\<close>, \<open>Infinity\<close>).
\<close>

datatype pyfloat = Finite rat | NonFinite

datatype json =
    JNull
  | JBool bool
  | JInt int
  | JFloat pyfloat
  | JStr string
  | JList "json list"
  | JObj "(string \<times> json) list"

text \<open>Python truthiness (\<open>if x:\<close>) of a parsed value.\<close>

fun truthy :: "json \<Rightarrow> bool" where
  "truthy JNull = False"
| "truthy (JBool b) = b"
| "truthy (JInt n) = (n \<noteq> 0)"
| "truthy (JFloat (Finite q)) = (q \<noteq> 0)"
| "truthy (JFloat NonFinite) = True"
| "truthy (JStr s) = (s \<noteq> [])"
| "truthy (JList xs) = (xs \<noteq> [])"
| "truthy (JObj kvs) = (kvs \<noteq> [])"







subsection \<open>get\_current\_resolution\<close>




subsection \<open>The detector object and its monitoring loop\<close>

text \<open>\<open>self.monitor_thread\<close>: \<open>None\<close>, or the thread that \<open>start_monitoring\<close> created.\<close>

datatype thread = NoThread | ThreadStarted

text \<open>
  The fields of \<open>ResolutionDetector\<close>. The callback is a function of the caller; the
  model keeps whether one is registered and, in \<open>fired\<close>, the argument pairs
  \<open>(old, new)\<close> of its invocations in order.
\<close>

record detector =
  stream_url :: string
  check_interval :: int
  current_resolution :: "resolution option"
  is_monitoring :: bool
  monitor_thread :: thread
  has_callback :: bool
  stop_event :: bool
  fired :: "(resolution \<times> resolution) list"

definition new_detector :: "string \<Rightarrow> int \<Rightarrow> detector" where
  "new_detector url interval =
     \<lparr> stream_url = url, check_interval = interval, current_resolution = None,
       is_monitoring = False, monitor_thread = NoThread, has_callback = False,
       stop_event = False, fired = [] \<rparr>"

text \<open>
  Lines 125 to 149: what one iteration does with a successful probe \<open>new\<close>.
\<close>

definition on_probe_success :: "resolution \<Rightarrow> detector \<Rightarrow> detector" where
  "on_probe_success new d =
     (case current_resolution d of
        Some old \<Rightarrow>
          if new \<noteq> old then
            (let d' = d\<lparr>current_resolution := Some new\<rparr>
             in if has_callback d' then d'\<lparr>fired := fired d' @ [(old, new)]\<rparr> else d')
          else d
      | None \<Rightarrow> d\<lparr>current_resolution := Some new\<rparr>)"

text \<open>
  \<open>_monitor_loop\<close>. The list holds the probe results of the iterations that found the
  stop event clear, in order; its end is the iteration test that finds the event set.
  The first argument is \<open>consecutive_failures\<close>. The loop leaves on the third
  consecutive failure, and sets \<open>is_monitoring\<close> to false on every way out.
\<close>

definition max_consecutive_failures :: nat where
  "max_consecutive_failures = 3"

fun monitor_loop_from :: "nat \<Rightarrow> detector \<Rightarrow> resolution option list \<Rightarrow> detector" where
  "monitor_loop_from cf d [] = d\<lparr>is_monitoring := False\<rparr>"
| "monitor_loop_from cf d (Some new # ps) = monitor_loop_from 0 (on_probe_success new d) ps"
| "monitor_loop_from cf d (None # ps) =
     (if cf + 1 \<ge> max_consecutive_failures then d\<lparr>is_monitoring := False\<rparr>
      else monitor_loop_from (cf + 1) d ps)"

definition monitor_loop :: "detector \<Rightarrow> resolution option list \<Rightarrow> detector" where
  "monitor_loop d ps = monitor_loop_from 0 d ps"

text \<open>
  \<open>start_monitoring\<close>, up to the start of the thread; \<open>initial\<close> is the result of the
  probe of line 87. A call on a detector that is monitoring only logs a warning.
\<close>

definition start_monitoring :: "detector \<Rightarrow> resolution option \<Rightarrow> detector" where
  "start_monitoring d initial =
     (if is_monitoring d then d
      else
        (let d1 = d\<lparr>has_callback := True, is_monitoring := True, stop_event := False\<rparr>;
             d2 = (case initial of
                     Some r \<Rightarrow> d1\<lparr>current_resolution := Some r\<rparr>
                   | None \<Rightarrow> d1)
         in d2\<lparr>monitor_thread := ThreadStarted\<rparr>))"

subsection \<open>What the specification asks of the monitor\<close>

text \<open>
  The change events of a sequence of successful samples, in the specification's words:
  with no baseline the sample becomes the baseline and nothing fires; a sample equal to
  the baseline fires nothing; a sample that differs fires once with \<open>(old, new)\<close> and
  becomes the baseline.
\<close>

fun changes :: "resolution option \<Rightarrow> resolution list \<Rightarrow> (resolution \<times> resolution) list" where
  "changes b [] = []"
| "changes None (r # rs) = changes (Some r) rs"
| "changes (Some old) (r # rs) =
     (if r = old then changes (Some old) rs else (old, r) # changes (Some r) rs)"

fun baseline_after :: "resolution option \<Rightarrow> resolution list \<Rightarrow> resolution option" where
  "baseline_after b [] = b"
| "baseline_after b (r # rs) = baseline_after (Some r) rs"

text \<open>
  The samples the loop takes before it stops by itself: everything up to the third
  failure in a row, counted from \<open>cf\<close> failures so far.
\<close>

fun observed :: "nat \<Rightarrow> resolution option list \<Rightarrow> resolution list" where
  "observed cf [] = []"
| "observed cf (Some r # ps) = r # observed 0 ps"
| "observed cf (None # ps) = (if cf + 1 \<ge> 3 then [] else observed (cf + 1) ps)"

definition p720 :: resolution where
  "p720 = (1280, 720)"

definition p1080 :: resolution where
  "p1080 = (1920, 1080)"

subsection \<open>Stopping the monitor\<close>

text \<open>
  Where the monitoring thread is when \<open>stop_monitoring\<close> is called: inside a probe
  (line 123) that needs so many more seconds and will return that result, with the
  failure count so far; inside \<open>self._stop_event.wait\<close> (line 161); or gone.
\<close>

datatype thread_pos = Probing nat "resolution option" nat | Waiting | Exited

text \<open>\<open>join(timeout=5)\<close> of line 112, and the timeout of the probe subprocess (line 45).\<close>

definition join_timeout :: nat where
  "join_timeout = 5"

definition probe_timeout :: nat where
  "probe_timeout = 10"

text \<open>
  The seconds the thread needs to leave its loop once the stop event is set, and what it
  still does on the way: a wait returns at once and the loop test ends the loop; a probe
  in flight is finished and its result handled by the rest of the loop body before the
  loop test is reached.
\<close>

fun time_to_exit :: "thread_pos \<Rightarrow> nat" where
  "time_to_exit (Probing k res cf) = k"
| "time_to_exit Waiting = 0"
| "time_to_exit Exited = 0"

fun thread_completes :: "detector \<Rightarrow> thread_pos \<Rightarrow> detector" where
  "thread_completes d (Probing k res cf) = monitor_loop_from cf d [res]"
| "thread_completes d Waiting = monitor_loop_from 0 d []"
| "thread_completes d Exited = d"

fun advance :: "nat \<Rightarrow> thread_pos \<Rightarrow> thread_pos" where
  "advance n (Probing k res cf) = Probing (k - n) res cf"
| "advance n pos = pos"

text \<open>
  \<open>stop_monitoring\<close>: the state of the detector and the position of the thread when
  the call returns. The join is made when there is a thread and it is alive; it ends when
  the thread does, or after five seconds.
\<close>

definition stop_monitoring :: "detector \<Rightarrow> thread_pos \<Rightarrow> detector \<times> thread_pos" where
  "stop_monitoring d pos =
     (if \<not> is_monitoring d then (d, pos)
      else
        (let d1 = d\<lparr>is_monitoring := False, stop_event := True\<rparr>
         in if monitor_thread d1 \<noteq> NoThread \<and> pos \<noteq> Exited then
              (if time_to_exit pos \<le> join_timeout then (thread_completes d1 pos, Exited)
               else (d1, advance join_timeout pos))
            else (d1, pos)))"

text \<open>
  The claim about \<open>stop()\<close>, in its words: when the call returns the loop has exited,
  and nothing the thread still does invokes the callback.
\<close>

definition stopped_cleanly :: "detector \<times> thread_pos \<Rightarrow> bool" where
  "stopped_cleanly res =
     (snd res = Exited \<and> fired (thread_completes (fst res) (snd res)) = fired (fst res))"

definition monitoring_720p :: detector where
  "monitoring_720p = start_monitoring (new_detector ''http://pull/stream.flv'' 5) (Some p720)"




section \<open>Configuration (utils/config\_manager.py)\<close>

text \<open>
  The configuration is the dict loaded from \<open>user_settings.json\<close>: the optional
  sections \<open>default\<close> (setting to value), \<open>users\<close> and \<open>rooms\<close> (name to setting to
  value). A section that is absent is \<open>None\<close>, which \<open>self.config.get(section, {})\<close>
  reads as the empty dict.
\<close>

record config =
  default_section :: "(string \<rightharpoonup> json) option"
  users_section :: "(string \<rightharpoonup> (string \<rightharpoonup> json)) option"
  rooms_section :: "(string \<rightharpoonup> (string \<rightharpoonup> json)) option"

text \<open>The dict that \<open>_load_config\<close> writes and returns when there is no usable file.\<close>

definition default_config :: config where
  "default_config =
     \<lparr> default_section =
         Some [''restart_on_resolution_change'' \<mapsto> JBool False,
               ''resolution_check_interval'' \<mapsto> JInt 5],
       users_section = Some Map.empty,
       rooms_section = Some Map.empty \<rparr>"

text \<open>
  The state of the configuration file when \<open>ConfigManager()\<close> is constructed: absent,
  present but failing to open or parse, or holding a configuration.
\<close>

datatype config_file = FileMissing | FileUnreadable | FileHolds config

definition load_config :: "config_file \<Rightarrow> config" where
  "load_config f =
     (case f of
        FileHolds c \<Rightarrow> c
      | FileMissing \<Rightarrow> default_config
      | FileUnreadable \<Rightarrow> default_config)"

definition section_get :: "(string \<rightharpoonup> 'a) option \<Rightarrow> string \<Rightarrow> 'a option" where
  "section_get sec k = (case sec of None \<Rightarrow> None | Some m \<Rightarrow> m k)"

definition default_get :: "config \<Rightarrow> string \<Rightarrow> json \<Rightarrow> json" where
  "default_get c setting default_value =
     (case section_get (default_section c) setting of
        None \<Rightarrow> default_value
      | Some v \<Rightarrow> v)"

definition get_user_setting :: "config \<Rightarrow> string \<Rightarrow> string \<Rightarrow> json \<Rightarrow> json" where
  "get_user_setting c user setting default_value =
     (let user_config = (case section_get (users_section c) user of
                           None \<Rightarrow> Map.empty
                         | Some uc \<Rightarrow> uc)
      in case user_config setting of
           Some v \<Rightarrow> v
         | None \<Rightarrow> default_get c setting default_value)"

definition get_room_setting :: "config \<Rightarrow> string \<Rightarrow> string \<Rightarrow> json \<Rightarrow> json" where
  "get_room_setting c room_id setting default_value =
     (let room_config = (case section_get (rooms_section c) room_id of
                           None \<Rightarrow> Map.empty
                         | Some rc \<Rightarrow> rc)
      in case room_config setting of
           Some v \<Rightarrow> v
         | None \<Rightarrow> default_get c setting default_value)"

text \<open>
  \<open>user\<close> and \<open>room_id\<close> are optional strings; \<open>if user:\<close> holds for a string that is
  not empty. \<open>should_restart_on_resolution_change\<close> and \<open>get_resolution_check_interval\<close>
  are the same \<open>if user / elif room_id / else\<close> chain, with the setting's name and the
  built-in fallback as the only difference.
\<close>

definition str_truthy :: "string option \<Rightarrow> bool" where
  "str_truthy x = (case x of None \<Rightarrow> False | Some s \<Rightarrow> s \<noteq> [])"

definition lookup_setting ::
  "config \<Rightarrow> string option \<Rightarrow> string option \<Rightarrow> string \<Rightarrow> json \<Rightarrow> json" where
  "lookup_setting c user room_id setting fallback =
     (if str_truthy user then get_user_setting c (the user) setting fallback
      else if str_truthy room_id then get_room_setting c (the room_id) setting fallback
      else default_get c setting fallback)"

definition should_restart_on_resolution_change ::
  "config \<Rightarrow> string option \<Rightarrow> string option \<Rightarrow> json" where
  "should_restart_on_resolution_change c user room_id =
     lookup_setting c user room_id ''restart_on_resolution_change'' (JBool False)"

definition get_resolution_check_interval ::
  "config \<Rightarrow> string option \<Rightarrow> string option \<Rightarrow> json" where
  "get_resolution_check_interval c user room_id =
     lookup_setting c user room_id ''resolution_check_interval'' (JInt 5)"

text \<open>
  The resolution order in the specification's words: the per-user override when one
  exists, otherwise the per-room override, otherwise the global default.
\<close>

definition override_of ::
  "(string \<rightharpoonup> (string \<rightharpoonup> json)) option \<Rightarrow> string option \<Rightarrow> string \<Rightarrow> json option" where
  "override_of sec name setting =
     (case name of
        None \<Rightarrow> None
      | Some n \<Rightarrow> (case section_get sec n of None \<Rightarrow> None | Some m \<Rightarrow> m setting))"

definition spec_setting ::
  "config \<Rightarrow> string option \<Rightarrow> string option \<Rightarrow> string \<Rightarrow> json \<Rightarrow> json" where
  "spec_setting c user room_id setting fallback =
     (case override_of (users_section c) user setting of
        Some v \<Rightarrow> v
      | None \<Rightarrow>
          (case override_of (rooms_section c) room_id setting of
             Some v \<Rightarrow> v
           | None \<Rightarrow> default_get c setting fallback))"

text \<open>
  A configuration with a room override and no user override: room \<open>7001\<close> enables the
  restart, the default disables it.
\<close>

definition room_only_config :: config where
  "room_only_config =
     \<lparr> default_section = Some [''restart_on_resolution_change'' \<mapsto> JBool False],
       users_section = Some Map.empty,
       rooms_section = Some [''7001'' \<mapsto> [''restart_on_resolution_change'' \<mapsto> JBool True]] \<rparr>"

section \<open>Output paths (core/tiktok\_recorder.py, core/multi\_stream\_recorder.py)\<close>

text \<open>\<open>str(n)\<close> of a natural number: its decimal digits.\<close>

definition digit_char :: "nat \<Rightarrow> char" where
  "digit_char d = ''0123456789'' ! d"

fun str_nat :: "nat \<Rightarrow> string" where
  "str_nat n = (if n < 10 then [digit_char n] else str_nat (n div 10) @ [digit_char (n mod 10)])"

declare str_nat.simps [simp del]

text \<open>
  The key \<open>f"Stream-{i+1}"\<close> that \<open>run\<close> gives the thread of the target at index
  \<open>i\<close>, and passes on as \<open>thread_name\<close>.
\<close>

definition stream_key :: "nat \<Rightarrow> string" where
  "stream_key i = ''Stream-'' @ str_nat (i + 1)"

text \<open>
  Lines 143 to 151 (237 to 245 in the multi-stream recorder): the output root with a
  separator added when it has none, then the folder of the user. \<open>nt\<close> is
  \<open>os.name == 'nt'\<close>; \<open>CHR 0x5C\<close> is the backslash.
\<close>

definition ends_with_separator :: "string \<Rightarrow> bool" where
  "ends_with_separator b = (b \<noteq> [] \<and> (last b = CHR ''/'' \<or> last b = CHR 0x5C))"

definition base_output :: "bool \<Rightarrow> string option \<Rightarrow> string" where
  "base_output nt output =
     (let b = (if str_truthy output then the output else [])
      in if b \<noteq> [] then
           (if \<not> ends_with_separator b then (if nt then b @ [CHR 0x5C] else b @ ''/'')
            else b)
         else b)"

definition user_folder :: "bool \<Rightarrow> string option \<Rightarrow> string \<Rightarrow> string" where
  "user_folder nt output user = base_output nt output @ user @ ''/''"

text \<open>Line 156 of the single-stream recorder.\<close>

definition single_output_path :: "bool \<Rightarrow> string option \<Rightarrow> string \<Rightarrow> string \<Rightarrow> string" where
  "single_output_path nt output user current_date =
     user_folder nt output user @ ''TK_'' @ user @ ''_'' @ current_date @ ''_flv.mp4''"

text \<open>
  Lines 251 and 252 of the multi-stream recorder; \<open>n_targets\<close> is
  \<open>len(self.targets)\<close>.
\<close>

definition output_suffix :: "nat \<Rightarrow> string \<Rightarrow> string" where
  "output_suffix n_targets thread_name = (if n_targets > 1 then ''_'' @ thread_name else [])"

definition multi_output_path ::
  "nat \<Rightarrow> string \<Rightarrow> bool \<Rightarrow> string option \<Rightarrow> string \<Rightarrow> string \<Rightarrow> string" where
  "multi_output_path n_targets thread_name nt output user current_date =
     user_folder nt output user @ ''TK_'' @ user @ ''_'' @ current_date
       @ output_suffix n_targets thread_name @ ''_flv.mp4''"

section \<open>Recording sessions\<close>

subsection \<open>The environment of a session\<close>

text \<open>
  The exceptions the recorders tell apart. \<open>ConnectionError\<close> is Python's built-in
  class, \<open>RequestException\<close> the one of the HTTP library, \<open>HTTPException\<close> the one of
  \<open>http.client\<close>. \<open>KeyboardInterrupt\<close> is the only one here that is not a subclass of
  \<open>Exception\<close>; \<open>OtherException\<close> is any other subclass of \<open>Exception\<close>.
\<close>

datatype exn =
    ConnectionError
  | RequestException
  | HTTPException
  | KeyboardInterrupt
  | UserLiveException
  | LiveNotFound
  | OtherException

definition is_Exception :: "exn \<Rightarrow> bool" where
  "is_Exception e = (e \<noteq> KeyboardInterrupt)"

datatype mode = MANUAL | AUTOMATIC

type_synonym byte = "8 word"

text \<open>
  The members of \<open>utils.enums.TimeOut\<close> that the recorders use. The module is not part of
  the sources at hand, so the two numbers are parameters: a number of seconds and a number
  of minutes, both natural numbers, so that their product is a length of time that
  \<open>time.sleep\<close> accepts.
\<close>

record timeouts =
  ONE_MINUTE :: nat
  CONNECTION_CLOSED :: nat

text \<open>
  What the recorder does to the outside, in order: the calls on the file system, on the
  output file, on the resolution detector, on the stream source, \<open>time.sleep\<close>, each read
  of the shared stop event, and the post-processing.
\<close>

datatype event =
    MakeDirs string
  | OpenFile string
  | StartMonitor "string option" json
  | Download string
  | Write "byte list"
  | Flush
  | CloseFile
  | StopMonitor
  | Sleep int
  | CheckStop
  | Convert string
  | Upload

text \<open>
  One chunk that \<open>download_live_stream\<close> yields, with what the loop reads while it
  handles the chunk: the stop event (multi-stream recorder only), the time since
  \<open>start_time\<close>, and whether the detector has called \<open>on_resolution_change\<close> by then.
\<close>

record chunk_step =
  stop_seen :: bool
  chunk :: "byte list"
  elapsed :: real
  change_fired :: bool

datatype stream_end = StreamEnds | StreamRaises exn

text \<open>
  One iteration of the \<open>while\<close> loop: the stop event at the loop test (multi-stream
  recorder only), the answer of \<open>is_room_alive\<close>, the chunks of this connection and how
  the connection ends.
\<close>

record round =
  stop_at_test :: bool
  alive :: "exn + bool"
  steps :: "chunk_step list"
  ending :: stream_end

text \<open>
  One call of the session function: the answer of \<open>get_live_url\<close>, the formatted local
  time, the configuration file as it is then, the iterations of the streaming loop, and
  the reads after the loop: whether the detector has called back by the final test, the
  stop event and the liveness check of that test, and the answer of the second
  \<open>get_live_url\<close>.
\<close>

record session_env =
  live_url :: "string option"
  current_date :: string
  config_file :: config_file
  rounds :: "round list"
  changed_at_end :: bool
  stop_at_end :: bool
  alive_at_end :: bool
  restart_url :: "exn + string option"

text \<open>
  The fields of \<open>TikTokRecorder\<close> that the session functions read: the target, the
  settings, the configuration that \<open>ConfigManager()\<close> loaded in \<open>__init__\<close>, and the
  stream URL and check interval of \<open>self.resolution_detector\<close>.
\<close>

record recorder =
  rec_user :: string
  rec_room_id :: string
  rec_mode :: mode
  automatic_interval :: int
  rec_output :: "string option"
  rec_duration :: "int option"
  use_telegram :: bool
  rec_config :: config
  detector_url :: "string option"
  detector_interval :: json

subsection \<open>The state of the streaming loop\<close>

text \<open>
  The local variables \<open>buffer\<close>, \<open>stop_recording\<close> and \<open>restart_requested[0]\<close>, the
  events so far, and whether the stop event has been seen set (it is never cleared). Two
  fields are not variables of the program: \<open>received\<close> collects every chunk the
  generator has yielded, \<open>appended\<close> every chunk passed to \<open>buffer.extend\<close>.
\<close>

record rec_state =
  buffer :: "byte list"
  trace :: "event list"
  stop_recording :: bool
  restart_requested :: bool
  stop_event_set :: bool
  received :: "byte list"
  appended :: "byte list"

definition buffer_size :: nat where
  "buffer_size = 512 * 1024"

text \<open>
  \<open>buffer.extend(chunk)\<close> followed by the write of a full buffer. (The progress display
  that follows the write prints and updates the dashboard only; its own \<open>try\<close> absorbs
  the file-system errors of the size query.)
\<close>

definition extend_buffer :: "byte list \<Rightarrow> rec_state \<Rightarrow> rec_state" where
  "extend_buffer data s =
     (let s1 = s\<lparr>buffer := buffer s @ data, appended := appended s @ data\<rparr>
      in if length (buffer s1) \<ge> buffer_size
         then s1\<lparr>trace := trace s1 @ [Write (buffer s1)], buffer := []\<rparr>
         else s1)"

text \<open>The \<open>finally\<close> clause of the loop body.\<close>

definition finally_flush :: "rec_state \<Rightarrow> rec_state" where
  "finally_flush s =
     (let s1 = (if buffer s \<noteq> [] then s\<lparr>trace := trace s @ [Write (buffer s)], buffer := []\<rparr>
                else s)
      in s1\<lparr>trace := trace s1 @ [Flush]\<rparr>)"

text \<open>\<open>self.duration and elapsed_time >= self.duration\<close>.\<close>

definition duration_reached :: "int option \<Rightarrow> real \<Rightarrow> bool" where
  "duration_reached dur el =
     (case dur of None \<Rightarrow> False | Some d \<Rightarrow> d \<noteq> 0 \<and> el \<ge> real_of_int d)"

text \<open>
  A read of the stop event and a read of \<open>restart_requested[0]\<close>. The event, once set,
  stays set; the flag is set by the callback when the configuration enables the restart
  (\<open>enabled\<close>) and is never reset within a session.
\<close>

definition read_stop :: "bool \<Rightarrow> rec_state \<Rightarrow> rec_state" where
  "read_stop now s =
     s\<lparr>stop_event_set := stop_event_set s \<or> now, trace := trace s @ [CheckStop]\<rparr>"

definition read_restart :: "bool \<Rightarrow> bool \<Rightarrow> rec_state \<Rightarrow> rec_state" where
  "read_restart enabled fired_now s =
     s\<lparr>restart_requested := restart_requested s \<or> (enabled \<and> fired_now)\<rparr>"

text \<open>
  The tail of the \<open>for\<close> body that both recorders share (lines 253 to 262, 333 to 342):
  the duration test, then the restart test. The second component says whether the loop
  breaks.
\<close>

definition after_chunk :: "int option \<Rightarrow> bool \<Rightarrow> chunk_step \<Rightarrow> rec_state \<Rightarrow> rec_state \<times> bool" where
  "after_chunk dur enabled c s =
     (if duration_reached dur (elapsed c) then (s\<lparr>stop_recording := True\<rparr>, True)
      else
        (let s1 = read_restart enabled (change_fired c) s
         in if restart_requested s1 then (s1\<lparr>stop_recording := True\<rparr>, True)
            else (s1, False)))"

subsection \<open>The streaming loops\<close>

text \<open>
  The \<open>for chunk in download_live_stream(live_url)\<close> loop of the multi-stream recorder
  (lines 295 to 342). The result is the state and the exception that ended the
  iteration, if one did. A chunk that arrives when the stop event is set is dropped: the
  loop breaks before \<open>buffer.extend\<close>.
\<close>

fun multi_for ::
  "int option \<Rightarrow> bool \<Rightarrow> rec_state \<Rightarrow> chunk_step list \<Rightarrow> stream_end \<Rightarrow> rec_state \<times> exn option" where
  "multi_for dur en s [] StreamEnds = (s, None)"
| "multi_for dur en s [] (StreamRaises e) = (s, Some e)"
| "multi_for dur en s (c # cs) fin =
     (let s1 = read_stop (stop_seen c) (s\<lparr>received := received s @ chunk c\<rparr>)
      in if stop_event_set s1 then (s1\<lparr>stop_recording := True\<rparr>, None)
         else
           (case after_chunk dur en c (extend_buffer (chunk c) s1) of
              (s2, brk) \<Rightarrow> if brk then (s2, None) else multi_for dur en s2 cs fin))"

text \<open>The same loop of the single-stream recorder (lines 204 to 262).\<close>

fun single_for ::
  "int option \<Rightarrow> bool \<Rightarrow> rec_state \<Rightarrow> chunk_step list \<Rightarrow> stream_end \<Rightarrow> rec_state \<times> exn option" where
  "single_for dur en s [] StreamEnds = (s, None)"
| "single_for dur en s [] (StreamRaises e) = (s, Some e)"
| "single_for dur en s (c # cs) fin =
     (case after_chunk dur en c (extend_buffer (chunk c) (s\<lparr>received := received s @ chunk c\<rparr>)) of
        (s2, brk) \<Rightarrow> if brk then (s2, None) else single_for dur en s2 cs fin)"

text \<open>
  How a \<open>while\<close> loop ends: it is left (by its test or by \<open>break\<close>), an exception leaves
  it, or the iterations listed are used up and it is still running.
\<close>

datatype loop_result = LoopExit rec_state | LoopRaise exn rec_state | LoopRunning rec_state

text \<open>
  The \<open>while not stop_recording and not self.stop_event.is_set()\<close> loop of the
  multi-stream recorder (lines 289 to 352). Its only handler is \<open>except Exception\<close>,
  which sets \<open>stop_recording\<close>; the \<open>finally\<close> clause runs on every way out of the body.
\<close>

fun multi_while :: "string \<Rightarrow> int option \<Rightarrow> bool \<Rightarrow> rec_state \<Rightarrow> round list \<Rightarrow> loop_result" where
  "multi_while url dur en s [] =
     (if stop_recording s then LoopExit s
      else if stop_event_set s then LoopExit (read_stop True s)
      else LoopRunning s)"
| "multi_while url dur en s (r # rest) =
     (if stop_recording s then LoopExit s
      else
        (let s0 = read_stop (stop_at_test r) s
         in if stop_event_set s0 then LoopExit s0
            else
              (case alive r of
                 Inr False \<Rightarrow> LoopExit (finally_flush s0)
               | Inl e \<Rightarrow>
                   if is_Exception e
                   then multi_while url dur en (finally_flush (s0\<lparr>stop_recording := True\<rparr>)) rest
                   else LoopRaise e (finally_flush s0)
               | Inr True \<Rightarrow>
                   (case multi_for dur en (s0\<lparr>trace := trace s0 @ [Download url]\<rparr>)
                           (steps r) (ending r) of
                      (s1, None) \<Rightarrow> multi_while url dur en (finally_flush s1) rest
                    | (s1, Some e) \<Rightarrow>
                        if is_Exception e
                        then multi_while url dur en
                               (finally_flush (s1\<lparr>stop_recording := True\<rparr>)) rest
                        else LoopRaise e (finally_flush s1)))))"

text \<open>
  The handlers of the single-stream recorder (lines 264 to 278), in their order:
  \<open>ConnectionError\<close> sleeps in automatic mode only, \<open>RequestException\<close> and
  \<open>HTTPException\<close> sleep two seconds, \<open>KeyboardInterrupt\<close> and any other exception set
  \<open>stop_recording\<close>.
\<close>

definition single_except :: "timeouts \<Rightarrow> mode \<Rightarrow> exn \<Rightarrow> rec_state \<Rightarrow> rec_state" where
  "single_except tc m e s =
     (if e = ConnectionError then
        (if m = AUTOMATIC
         then s\<lparr>trace := trace s @ [Sleep (int (CONNECTION_CLOSED tc * ONE_MINUTE tc))]\<rparr>
         else s)
      else if e = RequestException \<or> e = HTTPException then s\<lparr>trace := trace s @ [Sleep 2]\<rparr>
      else if e = KeyboardInterrupt then s\<lparr>stop_recording := True\<rparr>
      else s\<lparr>stop_recording := True\<rparr>)"

text \<open>The \<open>while not stop_recording\<close> loop of the single-stream recorder (lines 196 to 284).\<close>

fun single_while ::
  "timeouts \<Rightarrow> mode \<Rightarrow> string \<Rightarrow> int option \<Rightarrow> bool \<Rightarrow> rec_state \<Rightarrow> round list \<Rightarrow> loop_result" where
  "single_while tc m url dur en s [] = (if stop_recording s then LoopExit s else LoopRunning s)"
| "single_while tc m url dur en s (r # rest) =
     (if stop_recording s then LoopExit s
      else
        (case alive r of
           Inr False \<Rightarrow> LoopExit (finally_flush s)
         | Inl e \<Rightarrow> single_while tc m url dur en (finally_flush (single_except tc m e s)) rest
         | Inr True \<Rightarrow>
             (case single_for dur en (s\<lparr>trace := trace s @ [Download url]\<rparr>)
                     (steps r) (ending r) of
                (s1, None) \<Rightarrow> single_while tc m url dur en (finally_flush s1) rest
              | (s1, Some e) \<Rightarrow>
                  single_while tc m url dur en (finally_flush (single_except tc m e s1)) rest)))"

subsection \<open>The session functions\<close>

text \<open>
  How a call ends: it returns, an exception leaves it, or the environment listed is used
  up while it is still running.
\<close>

datatype outcome = Returned | Raised exn | StillRunning

definition initial_state :: "event list \<Rightarrow> bool \<Rightarrow> rec_state" where
  "initial_state t stop =
     \<lparr> buffer = [], trace = t, stop_recording = False, restart_requested = False,
       stop_event_set = stop, received = [], appended = [] \<rparr>"

text \<open>
  What follows the \<open>with\<close> block when the loop was left normally: the file is closed by
  the end of the block, then \<open>stop_monitoring()\<close> is called, then the conversion and the
  optional upload.
\<close>

definition after_loop :: "recorder \<Rightarrow> string \<Rightarrow> rec_state \<Rightarrow> rec_state" where
  "after_loop r output s =
     s\<lparr>trace := trace s @ [CloseFile, StopMonitor, Convert output]
                   @ (if use_telegram r then [Upload] else [])\<rparr>"

text \<open>
  Line 376: \<open>restart_requested[0] and not self.stop_event.is_set() and
  recorder.tiktok.is_room_alive(recorder.room_id)\<close>, evaluated left to right.
\<close>

definition multi_restart_test :: "bool \<Rightarrow> session_env \<Rightarrow> rec_state \<Rightarrow> rec_state \<times> bool" where
  "multi_restart_test en e s =
     (let s1 = read_restart en (changed_at_end e) s
      in if restart_requested s1 then
           (let s2 = read_stop (stop_at_end e) s1
            in (s2, \<not> stop_event_set s2 \<and> alive_at_end e))
         else (s1, False))"

text \<open>Line 307: \<open>restart_requested[0] and self.tiktok.is_room_alive(self.room_id)\<close>.\<close>

definition single_restart_test :: "bool \<Rightarrow> session_env \<Rightarrow> rec_state \<Rightarrow> rec_state \<times> bool" where
  "single_restart_test en e s =
     (let s1 = read_restart en (changed_at_end e) s
      in (s1, restart_requested s1 \<and> alive_at_end e))"

text \<open>
  What the \<open>try\<close> around the restart does with the result of the nested call: an
  exception that is an \<open>Exception\<close> is logged and the call returns.
\<close>

definition absorb :: "event list \<times> outcome \<Rightarrow> event list \<times> outcome" where
  "absorb res =
     (case res of
        (t, Raised ex) \<Rightarrow> (t, if is_Exception ex then Returned else Raised ex)
      | (t, oc) \<Rightarrow> (t, oc))"

text \<open>
  One call of a session function up to its restart test: it has not finished (the loop is
  still running, or an exception left the \<open>with\<close> block, which closes the file), or it
  has, with the state and the value of the restart test.
\<close>

datatype session_result = Unfinished "event list" outcome | Finished rec_state bool

text \<open>
  The settings of a session of the multi-stream recorder: \<open>ConfigManager()\<close> is
  constructed inside the call (line 262) and loads the file as it is then. The callback
  sets the restart flag when that configuration enables the restart for the user or room.
\<close>

definition multi_interval :: "recorder \<Rightarrow> session_env \<Rightarrow> json" where
  "multi_interval r e =
     get_resolution_check_interval (load_config (config_file e))
       (Some (rec_user r)) (Some (rec_room_id r))"

definition multi_enabled :: "recorder \<Rightarrow> session_env \<Rightarrow> bool" where
  "multi_enabled r e =
     truthy (should_restart_on_resolution_change (load_config (config_file e))
               (Some (rec_user r)) (Some (rec_room_id r)))"

text \<open>
  The settings of a session of the single-stream recorder: the callback asks
  \<open>self.config_manager\<close>, which \<open>__init__\<close> constructed.
\<close>

definition single_enabled :: "recorder \<Rightarrow> bool" where
  "single_enabled r =
     truthy (should_restart_on_resolution_change (rec_config r)
               (Some (rec_user r)) (Some (rec_room_id r)))"

text \<open>
  Lines 234 to 287 of the multi-stream recorder, 140 to 194 of the single-stream one:
  the directory is made, the file opened and the monitor started.
\<close>

definition multi_header :: "nat \<Rightarrow> string \<Rightarrow> bool \<Rightarrow> recorder \<Rightarrow> session_env \<Rightarrow> event list" where
  "multi_header n tn nt r e =
     [MakeDirs (user_folder nt (rec_output r) (rec_user r)),
      OpenFile (multi_output_path n tn nt (rec_output r) (rec_user r) (current_date e)),
      StartMonitor (Some (the (live_url e))) (multi_interval r e)]"

definition single_header :: "bool \<Rightarrow> recorder \<Rightarrow> session_env \<Rightarrow> event list" where
  "single_header nt r e =
     [MakeDirs (user_folder nt (rec_output r) (rec_user r)),
      OpenFile (single_output_path nt (rec_output r) (rec_user r) (current_date e)),
      StartMonitor (detector_url r) (detector_interval r)]"

text \<open>
  \<open>MultiStreamRecorder._start_recording_with_stop_event\<close> from line 234 to the test of
  line 376, for a live URL that was found. The arguments are \<open>len(self.targets)\<close>,
  \<open>thread_name\<close>, \<open>os.name == 'nt'\<close>, the recorder, the events so far, whether the
  stop event has been seen set, and the environment of the call.
\<close>

definition multi_session ::
  "nat \<Rightarrow> string \<Rightarrow> bool \<Rightarrow> recorder \<Rightarrow> event list \<Rightarrow> bool \<Rightarrow> session_env \<Rightarrow> session_result" where
  "multi_session n tn nt r t stop e =
     (case multi_while (the (live_url e)) (rec_duration r) (multi_enabled r e)
             (initial_state (t @ multi_header n tn nt r e) stop) (rounds e) of
        LoopRunning s \<Rightarrow> Unfinished (trace s) StillRunning
      | LoopRaise ex s \<Rightarrow> Unfinished (trace s @ [CloseFile]) (Raised ex)
      | LoopExit s \<Rightarrow>
          (case multi_restart_test (multi_enabled r e) e
                  (after_loop r
                     (multi_output_path n tn nt (rec_output r) (rec_user r) (current_date e)) s) of
             (s1, go) \<Rightarrow> Finished s1 go))"

text \<open>
  The whole function: the live URL is fetched first (line 230); after a restart test
  that holds, the function sleeps two seconds, fetches the URL again and, when there is
  one, calls itself inside a \<open>try\<close> (lines 380 to 391). The nested call fetches the URL
  once more, at its own line 230.
\<close>

fun multi_start_recording ::
  "nat \<Rightarrow> string \<Rightarrow> bool \<Rightarrow> recorder \<Rightarrow> event list \<Rightarrow> bool \<Rightarrow> session_env list
     \<Rightarrow> event list \<times> outcome" where
  "multi_start_recording n tn nt r t stop [] = (t, StillRunning)"
| "multi_start_recording n tn nt r t stop (e # es) =
     (if \<not> str_truthy (live_url e) then (t, Raised OtherException)
      else
        (case multi_session n tn nt r t stop e of
           Unfinished t' oc \<Rightarrow> (t', oc)
         | Finished s1 go \<Rightarrow>
             if go then
               (case restart_url e of
                  Inl ex \<Rightarrow> absorb (trace s1 @ [Sleep 2], Raised ex)
                | Inr u \<Rightarrow>
                    if str_truthy u
                    then absorb (multi_start_recording n tn nt r (trace s1 @ [Sleep 2])
                                   (stop_event_set s1) es)
                    else (trace s1 @ [Sleep 2], Returned))
             else (trace s1, Returned)))"

text \<open>
  \<open>TikTokRecorder.start_recording\<close> from line 140 to the test of line 307. The
  detector is the one the recorder holds.
\<close>

definition single_session ::
  "timeouts \<Rightarrow> bool \<Rightarrow> recorder \<Rightarrow> event list \<Rightarrow> session_env \<Rightarrow> session_result" where
  "single_session tc nt r t e =
     (case single_while tc (rec_mode r) (the (live_url e)) (rec_duration r) (single_enabled r)
             (initial_state (t @ single_header nt r e) False) (rounds e) of
        LoopRunning s \<Rightarrow> Unfinished (trace s) StillRunning
      | LoopRaise ex s \<Rightarrow> Unfinished (trace s @ [CloseFile]) (Raised ex)
      | LoopExit s \<Rightarrow>
          (case single_restart_test (single_enabled r) e
                  (after_loop r
                     (single_output_path nt (rec_output r) (rec_user r) (current_date e)) s) of
             (s1, go) \<Rightarrow> Finished s1 go))"

text \<open>
  The detector that the restart builds (lines 317 to 322): the new URL, and the check
  interval from the configuration loaded in \<open>__init__\<close>.
\<close>

definition with_new_detector :: "recorder \<Rightarrow> string option \<Rightarrow> recorder" where
  "with_new_detector r u =
     r\<lparr>detector_url := u,
       detector_interval :=
         get_resolution_check_interval (rec_config r) (Some (rec_user r)) (Some (rec_room_id r))\<rparr>"

fun single_start_recording ::
  "timeouts \<Rightarrow> bool \<Rightarrow> recorder \<Rightarrow> event list \<Rightarrow> session_env list \<Rightarrow> event list \<times> outcome" where
  "single_start_recording tc nt r t [] = (t, StillRunning)"
| "single_start_recording tc nt r t (e # es) =
     (if \<not> str_truthy (live_url e) then (t, Raised LiveNotFound)
      else
        (case single_session tc nt r t e of
           Unfinished t' oc \<Rightarrow> (t', oc)
         | Finished s1 go \<Rightarrow>
             if go then
               (case restart_url e of
                  Inl ex \<Rightarrow> absorb (trace s1 @ [Sleep 2], Raised ex)
                | Inr u \<Rightarrow>
                    if str_truthy u
                    then absorb (single_start_recording tc nt (with_new_detector r u)
                                   (trace s1 @ [Sleep 2]) es)
                    else (trace s1 @ [Sleep 2], Returned))
             else (trace s1, Returned)))"

text \<open>
  The recorder as \<open>__init__\<close> leaves it, given the configuration file and the answer of
  \<open>get_live_url\<close> at that time.
\<close>

definition new_recorder ::
  "string \<Rightarrow> string \<Rightarrow> mode \<Rightarrow> int \<Rightarrow> string option \<Rightarrow> int option \<Rightarrow> bool
     \<Rightarrow> config_file \<Rightarrow> string option \<Rightarrow> recorder" where
  "new_recorder user room_id m interval output dur telegram cf url =
     \<lparr> rec_user = user, rec_room_id = room_id, rec_mode = m, automatic_interval = interval,
       rec_output = output, rec_duration = dur, use_telegram = telegram,
       rec_config = load_config cf, detector_url = url,
       detector_interval =
         get_resolution_check_interval (load_config cf) (Some user) (Some room_id) \<rparr>"

subsection \<open>Reading a trace\<close>

text \<open>The bytes written to the output file, the files opened, the monitors started.\<close>

fun written :: "event list \<Rightarrow> byte list" where
  "written [] = []"
| "written (Write bs # t) = bs @ written t"
| "written (ev # t) = written t"

fun opened :: "event list \<Rightarrow> string list" where
  "opened [] = []"
| "opened (OpenFile p # t) = p # opened t"
| "opened (ev # t) = opened t"

fun monitors :: "event list \<Rightarrow> (string option \<times> json) list" where
  "monitors [] = []"
| "monitors (StartMonitor u i # t) = (u, i) # monitors t"
| "monitors (ev # t) = monitors t"

text \<open>The events that the streaming loops emit.\<close>

fun loop_event :: "event \<Rightarrow> bool" where
  "loop_event (Write bs) = True"
| "loop_event Flush = True"
| "loop_event (Download u) = True"
| "loop_event CheckStop = True"
| "loop_event (Sleep n) = True"
| "loop_event ev = False"

definition emits :: "rec_state \<Rightarrow> rec_state \<Rightarrow> bool" where
  "emits s s' = (\<exists>evs. trace s' = trace s @ evs \<and> list_all loop_event evs)"

text \<open>
  The closes and the stops of a trace, in order, and the specification's order for them:
  when the file is closed, the monitor started for the session has been stopped.
\<close>

fun close_stop :: "event list \<Rightarrow> event list" where
  "close_stop [] = []"
| "close_stop (CloseFile # t) = CloseFile # close_stop t"
| "close_stop (StopMonitor # t) = StopMonitor # close_stop t"
| "close_stop (ev # t) = close_stop t"


text \<open>The state that a loop result carries.\<close>

fun loop_state :: "loop_result \<Rightarrow> rec_state" where
  "loop_state (LoopExit s) = s"
| "loop_state (LoopRaise e s) = s"
| "loop_state (LoopRunning s) = s"

text \<open>The two ways the multi-stream recorder handles a chunk: dropped, or taken.\<close>

definition multi_fetch :: "chunk_step \<Rightarrow> rec_state \<Rightarrow> rec_state" where
  "multi_fetch c s = read_stop (stop_seen c) (s\<lparr>received := received s @ chunk c\<rparr>)"

definition single_fetch :: "chunk_step \<Rightarrow> rec_state \<Rightarrow> rec_state" where
  "single_fetch c s = s\<lparr>received := received s @ chunk c\<rparr>"

subsection \<open>Invariants of the byte accounting\<close>







text \<open>What a trace has written before its first close of the output file.\<close>

definition written_before_close :: "event list \<Rightarrow> byte list" where
  "written_before_close t = written (takeWhile (\<lambda>ev. ev \<noteq> CloseFile) t)"

text \<open>The events between the loop and the restart test of a session that writes to \<open>p\<close>.\<close>

definition closing :: "recorder \<Rightarrow> string \<Rightarrow> event list" where
  "closing r p = [CloseFile, StopMonitor, Convert p] @ (if use_telegram r then [Upload] else [])"


text \<open>
  A session environment in which the target goes offline at the first liveness check of
  the loop, and a recorder for it.
\<close>

definition offline_env :: session_env where
  "offline_env =
     \<lparr> live_url = Some ''http://pull/stream.flv'', current_date = ''2024.05.01_10-00-00'',
       config_file = FileMissing,
       rounds = [\<lparr> stop_at_test = False, alive = Inr False, steps = [], ending = StreamEnds \<rparr>],
       changed_at_end = False, stop_at_end = False, alive_at_end = False,
       restart_url = Inr None \<rparr>"

definition alice :: recorder where
  "alice = new_recorder ''alice'' ''7001'' MANUAL 5 None None False FileMissing
             (Some ''http://pull/init.flv'')"

text \<open>
  Whether every write of a trace goes to a file that is open: the first argument says
  whether a file is open at the start; \<open>open_after\<close> is whether one is open at the end.
\<close>

fun writes_while_open :: "bool \<Rightarrow> event list \<Rightarrow> bool" where
  "writes_while_open opn [] = True"
| "writes_while_open opn (OpenFile p # t) = writes_while_open True t"
| "writes_while_open opn (CloseFile # t) = writes_while_open False t"
| "writes_while_open opn (Write bs # t) = (opn \<and> writes_while_open opn t)"
| "writes_while_open opn (ev # t) = writes_while_open opn t"

fun open_after :: "bool \<Rightarrow> event list \<Rightarrow> bool" where
  "open_after opn [] = opn"
| "open_after opn (OpenFile p # t) = open_after True t"
| "open_after opn (CloseFile # t) = open_after False t"
| "open_after opn (ev # t) = open_after opn t"

text \<open>
  A session in which the first connection yields one chunk and then breaks with a
  \<open>RequestException\<close>, the second connection yields one chunk and ends, and the target
  is offline at the third liveness check.
\<close>

definition dropout_env :: session_env where
  "dropout_env =
     \<lparr> live_url = Some ''http://pull/stream.flv'', current_date = ''2024.05.01_10-00-00'',
       config_file = FileMissing,
       rounds =
         [\<lparr> stop_at_test = False, alive = Inr True,
            steps = [\<lparr> stop_seen = False, chunk = [1, 2], elapsed = 1, change_fired = False \<rparr>],
            ending = StreamRaises RequestException \<rparr>,
          \<lparr> stop_at_test = False, alive = Inr True,
            steps = [\<lparr> stop_seen = False, chunk = [3], elapsed = 1, change_fired = False \<rparr>],
            ending = StreamEnds \<rparr>,
          \<lparr> stop_at_test = False, alive = Inr False, steps = [], ending = StreamEnds \<rparr>],
       changed_at_end = False, stop_at_end = False, alive_at_end = False,
       restart_url = Inr None \<rparr>"



text \<open>
  A configuration that enables the restart for the user \<open>alice\<close>; a session in which the
  resolution changes during the first chunk and the target stays live; the same session
  when the second \<open>get_live_url\<close> finds no URL.
\<close>

definition restart_config :: config where
  "restart_config =
     \<lparr> default_section = Some [''restart_on_resolution_change'' \<mapsto> JBool False,
                              ''resolution_check_interval'' \<mapsto> JInt 5],
       users_section = Some [''alice'' \<mapsto> [''restart_on_resolution_change'' \<mapsto> JBool True]],
       rooms_section = Some Map.empty \<rparr>"

definition change_env :: session_env where
  "change_env =
     \<lparr> live_url = Some ''http://pull/low.flv'', current_date = ''2024.05.01_09-00-00'',
       config_file = FileHolds restart_config,
       rounds =
         [\<lparr> stop_at_test = False, alive = Inr True,
            steps = [\<lparr> stop_seen = False, chunk = [1], elapsed = 1, change_fired = True \<rparr>],
            ending = StreamEnds \<rparr>],
       changed_at_end = True, stop_at_end = False, alive_at_end = True,
       restart_url = Inr (Some ''http://pull/high.flv'') \<rparr>"



text \<open>A session on the new URL that takes one chunk before the target goes offline.\<close>

definition resumed_env :: session_env where
  "resumed_env =
     \<lparr> live_url = Some ''http://pull/fresh.flv'', current_date = ''2024.05.01_09-30-00'',
       config_file = FileHolds restart_config,
       rounds =
         [\<lparr> stop_at_test = False, alive = Inr True,
            steps = [\<lparr> stop_seen = False, chunk = [2], elapsed = 1, change_fired = False \<rparr>],
            ending = StreamEnds \<rparr>,
          \<lparr> stop_at_test = False, alive = Inr False, steps = [], ending = StreamEnds \<rparr>],
       changed_at_end = False, stop_at_end = False, alive_at_end = False,
       restart_url = Inr None \<rparr>"

text \<open>
  Reading a decimal numeral back: used to show that \<open>str_nat\<close> gives different texts
  for different numbers.
\<close>

definition digit_val :: "char \<Rightarrow> nat" where
  "digit_val c = length (takeWhile (\<lambda>d. d \<noteq> c) ''0123456789'')"

definition val_of_digits :: "string \<Rightarrow> nat" where
  "val_of_digits s = foldl (\<lambda>a c. 10 * a + digit_val c) 0 s"

text \<open>The path of a session of either recorder, as a function of the session's environment.\<close>

definition multi_path_of :: "nat \<Rightarrow> string \<Rightarrow> bool \<Rightarrow> recorder \<Rightarrow> session_env \<Rightarrow> string" where
  "multi_path_of n tn nt r e =
     multi_output_path n tn nt (rec_output r) (rec_user r) (current_date e)"

definition single_path_of :: "bool \<Rightarrow> recorder \<Rightarrow> session_env \<Rightarrow> string" where
  "single_path_of nt r e = single_output_path nt (rec_output r) (rec_user r) (current_date e)"

section \<open>Automatic mode\<close>

text \<open>
  What a task does to the outside between sessions: the room lookup, the liveness check,
  the call of the session function, each read of the stop event, and \<open>time.sleep\<close>.
\<close>

datatype task_event = LookupRoom | CheckLive | Record | TaskCheckStop | TaskSleep int

text \<open>
  One iteration of the \<open>while\<close> loop of automatic mode: the stop event at the loop test
  and at the start of manual mode (multi-stream recorder only), the exception that
  \<open>get_room_id_from_user\<close> raises if it does, the answer of \<open>is_room_alive\<close>, how the
  call of the session function ends, and the stop event during the wait: \<open>Some k\<close> when
  the read after \<open>k\<close> sleeps finds it set, \<open>None\<close> when no read of the wait does.
\<close>

record auto_iter =
  stop_at_loop :: bool
  room_lookup :: "exn option"
  stop_at_manual :: bool
  live_check :: "exn + bool"
  recording :: outcome
  wait_stop :: "nat option"





text \<open>\<open>TikTokRecorder.manual_mode\<close> (lines 105 to 112).\<close>

definition single_manual_mode :: "task_event list \<Rightarrow> auto_iter \<Rightarrow> task_event list \<times> outcome" where
  "single_manual_mode t it =
     (case live_check it of
        Inl e \<Rightarrow> (t @ [CheckLive], Raised e)
      | Inr False \<Rightarrow> (t @ [CheckLive], Raised UserLiveException)
      | Inr True \<Rightarrow> (t @ [CheckLive, Record], recording it))"

definition single_try_body :: "task_event list \<Rightarrow> auto_iter \<Rightarrow> task_event list \<times> outcome" where
  "single_try_body t it =
     (case room_lookup it of
        Some e \<Rightarrow> (t @ [LookupRoom], Raised e)
      | None \<Rightarrow> single_manual_mode (t @ [LookupRoom]) it)"

text \<open>
  \<open>TikTokRecorder.automatic_mode\<close> (lines 115 to 130): \<open>while True\<close> with three
  handlers, none of which has a \<open>break\<close> or a \<open>return\<close>; \<open>iv\<close> is \<open>self.automatic_interval\<close>,
  an integer that nothing in the class bounds. \<open>time.sleep\<close> raises \<open>ValueError\<close> on a
  negative argument; in the handler of \<open>UserLiveException\<close> (line 123) that exception is
  raised outside the \<open>try\<close> body, so no handler of the statement catches it and it leaves
  \<open>automatic_mode\<close>. It is an \<open>OtherException\<close> here. The argument of the sleep of line 127
  is a product of two members of \<open>TimeOut\<close>.
\<close>

fun single_automatic ::
  "timeouts \<Rightarrow> int \<Rightarrow> task_event list \<Rightarrow> auto_iter list \<Rightarrow> task_event list \<times> outcome" where
  "single_automatic tc iv t [] = (t, StillRunning)"
| "single_automatic tc iv t (it # rest) =
     (case single_try_body t it of
        (t1, Returned) \<Rightarrow> single_automatic tc iv t1 rest
      | (t1, StillRunning) \<Rightarrow> (t1, StillRunning)
      | (t1, Raised e) \<Rightarrow>
          if e = UserLiveException
          then (if iv * int (ONE_MINUTE tc) < 0 then (t1, Raised OtherException)
                else single_automatic tc iv (t1 @ [TaskSleep (iv * int (ONE_MINUTE tc))]) rest)
          else if e = ConnectionError
          then single_automatic tc iv
                 (t1 @ [TaskSleep (int (CONNECTION_CLOSED tc * ONE_MINUTE tc))]) rest
          else if is_Exception e then single_automatic tc iv t1 rest
          else (t1, Raised e))"





definition minutes :: timeouts where
  "minutes = \<lparr> ONE_MINUTE = 60, CONNECTION_CLOSED = 2 \<rparr>"

text \<open>
  The restarts of a trace. A restart is a session that begins (\<open>os.makedirs\<close> is its first
  event) directly after the pause \<open>time.sleep(2)\<close> of lines 311 and 380; a pause that is
  followed by nothing, because no URL was found, starts no session. The first argument
  says whether the event before the trace was a sleep; \<open>paused_after\<close> is whether the
  last event was.
\<close>

fun restarts_after :: "bool \<Rightarrow> event list \<Rightarrow> nat" where
  "restarts_after paused [] = 0"
| "restarts_after paused (MakeDirs p # t) = (if paused then 1 else 0) + restarts_after False t"
| "restarts_after paused (Sleep n # t) = restarts_after True t"
| "restarts_after paused (ev # t) = restarts_after False t"

fun paused_after :: "bool \<Rightarrow> event list \<Rightarrow> bool" where
  "paused_after paused [] = paused"
| "paused_after paused (Sleep n # t) = paused_after True t"
| "paused_after paused (ev # t) = paused_after False t"

definition restarts :: "event list \<Rightarrow> nat" where
  "restarts t = restarts_after False t"

text \<open>
  The session after a restart when the local clock reads the same second as it did at the
  start of the session before, as it does when the clock has been set back meanwhile.
\<close>

definition same_second_env :: session_env where
  "same_second_env = resumed_env\<lparr>current_date := current_date change_env\<rparr>"

text \<open>
  The session of \<open>change_env\<close> with a further round in which the target is offline when
  the restart is not enabled and the loop goes on; the same session when the file holds
  \<open>room_only_config\<close>; and a single-stream recorder constructed while it does.
\<close>

definition late_change_env :: session_env where
  "late_change_env =
     change_env\<lparr>rounds := rounds change_env
        @ [\<lparr> stop_at_test = False, alive = Inr False, steps = [], ending = StreamEnds \<rparr>]\<rparr>"

definition room_change_env :: session_env where
  "room_change_env = late_change_env\<lparr>config_file := FileHolds room_only_config\<rparr>"

definition alice_by_room :: recorder where
  "alice_by_room = new_recorder ''alice'' ''7001'' MANUAL 5 None None False
                     (FileHolds room_only_config) (Some ''http://pull/init.flv'')"

section \<open>Properties\<close>

subsection \<open>The monitoring loop\<close>

lemma has_callback_on_probe_success: "has_callback (on_probe_success new d) = has_callback d"
  by (simp add: on_probe_success_def Let_def split: option.splits)

lemma fired_monitor_loop_from:
  "has_callback d \<Longrightarrow>
   fired (monitor_loop_from cf d ps) = fired d @ changes (current_resolution d) (observed cf ps)"
proof (induction cf d ps rule: monitor_loop_from.induct)
  case (1 cf d)
  then show ?case by simp
next
  case (2 cf d new ps)
  then show ?case
    by (cases "current_resolution d")
       (auto simp: has_callback_on_probe_success on_probe_success_def Let_def)
next
  case (3 cf d ps)
  then show ?case by (simp add: max_consecutive_failures_def)
qed

lemma baseline_monitor_loop_from:
  "current_resolution (monitor_loop_from cf d ps) =
   baseline_after (current_resolution d) (observed cf ps)"
proof (induction cf d ps rule: monitor_loop_from.induct)
  case (2 cf d new ps)
  then show ?case
    by (cases "current_resolution d") (auto simp: on_probe_success_def Let_def)
qed (simp_all add: max_consecutive_failures_def)

text \<open>
  Claim C1. With a callback registered, the invocations that a run of the monitoring loop
  adds are exactly the change events of the samples it takes, each with \<open>(old, new)\<close>,
  and the baseline afterwards is the last sample taken. One iteration with no baseline
  adopts the sample and fires nothing; with a baseline equal to the sample it changes
  nothing; with a different baseline it fires once with \<open>(old, new)\<close> and replaces the
  baseline. For the samples 720p, 720p, 1080p, 1080p, whether the first is the initial
  probe of \<open>start_monitoring\<close> or that probe failed and all four are taken by the loop,
  the callback fires exactly once, with \<open>(720p, 1080p)\<close>.
\<close>

theorem monitor_fires_once_per_change:
  assumes "has_callback d"
  shows "fired (monitor_loop d ps) = fired d @ changes (current_resolution d) (observed 0 ps)
    \<and> current_resolution (monitor_loop d ps) = baseline_after (current_resolution d) (observed 0 ps)
    \<and> fired (on_probe_success new (d\<lparr>current_resolution := None\<rparr>)) = fired d
    \<and> current_resolution (on_probe_success new (d\<lparr>current_resolution := None\<rparr>)) = Some new
    \<and> on_probe_success new (d\<lparr>current_resolution := Some new\<rparr>) = d\<lparr>current_resolution := Some new\<rparr>
    \<and> fired (on_probe_success new (d\<lparr>current_resolution := Some old\<rparr>)) =
        (if new = old then fired d else fired d @ [(old, new)])
    \<and> current_resolution (on_probe_success new (d\<lparr>current_resolution := Some old\<rparr>)) = Some new
    \<and> fired (monitor_loop (start_monitoring (new_detector url iv) (Some p720))
          [Some p720, Some p1080, Some p1080]) = [(p720, p1080)]
    \<and> fired (monitor_loop (start_monitoring (new_detector url iv) None)
          [Some p720, Some p720, Some p1080, Some p1080]) = [(p720, p1080)]"
proof -
  have a: "fired (monitor_loop d ps) = fired d @ changes (current_resolution d) (observed 0 ps)"
    unfolding monitor_loop_def using assms by (rule fired_monitor_loop_from)
  have b: "current_resolution (monitor_loop d ps) = baseline_after (current_resolution d) (observed 0 ps)"
    unfolding monitor_loop_def by (rule baseline_monitor_loop_from)
  have c: "fired (on_probe_success new (d\<lparr>current_resolution := None\<rparr>)) = fired d"
    "current_resolution (on_probe_success new (d\<lparr>current_resolution := None\<rparr>)) = Some new"
    "on_probe_success new (d\<lparr>current_resolution := Some new\<rparr>) = d\<lparr>current_resolution := Some new\<rparr>"
    by (simp_all add: on_probe_success_def)
  have e: "fired (on_probe_success new (d\<lparr>current_resolution := Some old\<rparr>)) =
        (if new = old then fired d else fired d @ [(old, new)])"
    "current_resolution (on_probe_success new (d\<lparr>current_resolution := Some old\<rparr>)) = Some new"
    using assms by (simp_all add: on_probe_success_def Let_def)
  have f: "fired (monitor_loop (start_monitoring (new_detector url iv) (Some p720))
          [Some p720, Some p1080, Some p1080]) = [(p720, p1080)]"
    by (simp add: monitor_loop_def start_monitoring_def new_detector_def on_probe_success_def
        Let_def p720_def p1080_def)
  have g: "fired (monitor_loop (start_monitoring (new_detector url iv) None)
          [Some p720, Some p720, Some p1080, Some p1080]) = [(p720, p1080)]"
    by (simp add: monitor_loop_def start_monitoring_def new_detector_def on_probe_success_def
        Let_def p720_def p1080_def)
  from a b c e f g show ?thesis by simp
qed

theorem monitor_fires_once_per_change_witness:
  "has_callback (start_monitoring (new_detector ''u'' 5) (Some p720))
   \<and> fired (monitor_loop (start_monitoring (new_detector ''u'' 5) (Some p720))
        [Some p1080, None, None, Some p720, None, None, None, Some p1080])
     = [(p720, p1080), (p1080, p720)]"
proof -
  let ?d = "start_monitoring (new_detector ''u'' 5) (Some p720)"
  have h: "has_callback ?d"
    by (simp add: start_monitoring_def new_detector_def)
  have c: "current_resolution ?d = Some p720" "fired ?d = []"
    by (simp_all add: start_monitoring_def new_detector_def)
  note t = monitor_fires_once_per_change
      [where ps = "[Some p1080, None, None, Some p720, None, None, None, Some p1080]",
        OF h, THEN conjunct1]
  have "fired (monitor_loop ?d [Some p1080, None, None, Some p720, None, None, None, Some p1080])
      = [(p720, p1080), (p1080, p720)]"
    unfolding t c by (simp add: p720_def p1080_def)
  with h show ?thesis by simp
qed

subsection \<open>The single probe\<close>








subsection \<open>Invariants of the streaming loops\<close>

lemma written_append [simp]: "written (t @ u) = written t @ written u"
  by (induction t rule: written.induct) simp_all

lemma opened_append [simp]: "opened (t @ u) = opened t @ opened u"
  by (induction t rule: opened.induct) simp_all

lemma monitors_append [simp]: "monitors (t @ u) = monitors t @ monitors u"
  by (induction t rule: monitors.induct) simp_all

lemma close_stop_append [simp]: "close_stop (t @ u) = close_stop t @ close_stop u"
  by (induction t rule: close_stop.induct) simp_all

lemma loop_events_opened: "list_all loop_event evs \<Longrightarrow> opened evs = []"
  by (induction evs rule: opened.induct) simp_all

lemma loop_events_monitors: "list_all loop_event evs \<Longrightarrow> monitors evs = []"
  by (induction evs rule: monitors.induct) simp_all


lemma emits_refl [simp]: "emits s s"
  by (simp add: emits_def)

lemma emits_trans: "emits s s' \<Longrightarrow> emits s' s'' \<Longrightarrow> emits s s''"
  by (auto simp: emits_def)

lemma emits_same_trace: "trace s' = trace s \<Longrightarrow> emits s s'"
  by (simp add: emits_def)

lemma emits_extend_buffer: "emits s (extend_buffer d s)"
  by (simp add: emits_def extend_buffer_def Let_def)

lemma emits_finally_flush: "emits s (finally_flush s)"
  by (simp add: emits_def finally_flush_def Let_def)

lemma emits_read_stop: "emits s (read_stop b s)"
  by (simp add: emits_def read_stop_def)

lemma emits_after_chunk: "after_chunk dur en c s = (s', brk) \<Longrightarrow> emits s s'"
  by (auto simp: after_chunk_def read_restart_def Let_def emits_def split: if_splits)

lemma emits_single_except: "emits s (single_except tc m e s)"
  by (simp add: emits_def single_except_def)


lemma multi_for_rule:
  assumes drop: "\<And>s c. Q s \<Longrightarrow> stop_event_set (multi_fetch c s) \<Longrightarrow>
            Q ((multi_fetch c s)\<lparr>stop_recording := True\<rparr>)"
    and take: "\<And>s c. Q s \<Longrightarrow> \<not> stop_event_set (multi_fetch c s) \<Longrightarrow>
            Q (fst (after_chunk dur en c (extend_buffer (chunk c) (multi_fetch c s))))"
  shows "Q s \<Longrightarrow> Q (fst (multi_for dur en s cs fin))"
proof (induction cs arbitrary: s)
  case Nil
  then show ?case by (cases fin) simp_all
next
  case (Cons c cs)
  let ?s1 = "multi_fetch c s"
  show ?case
  proof (cases "stop_event_set ?s1")
    case True
    with drop [OF Cons.prems True] show ?thesis by (simp add: multi_fetch_def)
  next
    case False
    obtain s2 brk where ac: "after_chunk dur en c (extend_buffer (chunk c) ?s1) = (s2, brk)"
      by (cases "after_chunk dur en c (extend_buffer (chunk c) ?s1)")
    from ac take [OF Cons.prems False] have q2: "Q s2" by simp
    show ?thesis
    proof (cases brk)
      case True
      with False ac q2 show ?thesis by (simp add: multi_fetch_def)
    next
      case b: False
      from Cons.IH [OF q2] False ac b show ?thesis by (simp add: multi_fetch_def)
    qed
  qed
qed

lemma single_for_rule:
  assumes take: "\<And>s c. Q s \<Longrightarrow>
            Q (fst (after_chunk dur en c (extend_buffer (chunk c) (single_fetch c s))))"
  shows "Q s \<Longrightarrow> Q (fst (single_for dur en s cs fin))"
proof (induction cs arbitrary: s)
  case Nil
  then show ?case by (cases fin) simp_all
next
  case (Cons c cs)
  obtain s2 brk where ac:
    "after_chunk dur en c (extend_buffer (chunk c) (single_fetch c s)) = (s2, brk)"
    by (cases "after_chunk dur en c (extend_buffer (chunk c) (single_fetch c s))")
  from ac take [OF Cons.prems, of c] have q2: "Q s2" by simp
  show ?case
  proof (cases brk)
    case True
    with ac q2 show ?thesis by (simp add: single_fetch_def)
  next
    case b: False
    from Cons.IH [OF q2] ac b show ?thesis by (simp add: single_fetch_def)
  qed
qed

lemma multi_while_rule:
  assumes rd: "\<And>s b. P s \<Longrightarrow> P (read_stop b s)"
    and dl: "\<And>s. P s \<Longrightarrow> Q (s\<lparr>trace := trace s @ [Download url]\<rparr>)"
    and pq: "\<And>s. P s \<Longrightarrow> Q s"
    and st: "\<And>s. Q s \<Longrightarrow> Q (s\<lparr>stop_recording := True\<rparr>)"
    and fl: "\<And>s. Q s \<Longrightarrow> P (finally_flush s)"
    and drop: "\<And>s c. Q s \<Longrightarrow> stop_event_set (multi_fetch c s) \<Longrightarrow>
            Q ((multi_fetch c s)\<lparr>stop_recording := True\<rparr>)"
    and take: "\<And>s c. Q s \<Longrightarrow> \<not> stop_event_set (multi_fetch c s) \<Longrightarrow>
            Q (fst (after_chunk dur en c (extend_buffer (chunk c) (multi_fetch c s))))"
  shows "P s \<Longrightarrow> P (loop_state (multi_while url dur en s rs))"
proof (induction rs arbitrary: s)
  case Nil
  then show ?case by (simp add: rd)
next
  case (Cons r rest)
  let ?s0 = "read_stop (stop_at_test r) s"
  have p0: "P ?s0" using Cons.prems by (rule rd)
  show ?case
  proof (cases "stop_recording s \<or> stop_event_set ?s0")
    case True
    with Cons.prems p0 show ?thesis by (auto simp: Let_def)
  next
    case False
    then have ns: "\<not> stop_recording s" "\<not> stop_event_set ?s0" by simp_all
    show ?thesis
    proof (cases "alive r")
      case (Inl e)
      have "P (finally_flush ?s0)" "P (finally_flush (?s0\<lparr>stop_recording := True\<rparr>))"
        using p0 pq st fl by blast+
      with Inl ns Cons.IH show ?thesis by (simp add: Let_def)
    next
      case (Inr b)
      show ?thesis
      proof (cases b)
        case False
        have "P (finally_flush ?s0)" using p0 pq fl by blast
        with Inr False ns show ?thesis by (simp add: Let_def)
      next
        case True
        obtain s1 x where mf:
          "multi_for dur en (?s0\<lparr>trace := trace ?s0 @ [Download url]\<rparr>) (steps r) (ending r) = (s1, x)"
          by (cases "multi_for dur en (?s0\<lparr>trace := trace ?s0 @ [Download url]\<rparr>) (steps r) (ending r)")
        have "Q (fst (multi_for dur en (?s0\<lparr>trace := trace ?s0 @ [Download url]\<rparr>) (steps r) (ending r)))"
          using drop take dl [OF p0] by (rule multi_for_rule)
        with mf have q1: "Q s1" by simp
        then have "P (finally_flush s1)" "P (finally_flush (s1\<lparr>stop_recording := True\<rparr>))"
          using st fl by blast+
        with Inr True ns mf Cons.IH show ?thesis
          by (cases x) (simp_all add: Let_def)
      qed
    qed
  qed
qed

lemma single_while_rule:
  assumes dl: "\<And>s. P s \<Longrightarrow> Q (s\<lparr>trace := trace s @ [Download url]\<rparr>)"
    and pq: "\<And>s. P s \<Longrightarrow> Q s"
    and ex: "\<And>s e. Q s \<Longrightarrow> Q (single_except tc m e s)"
    and fl: "\<And>s. Q s \<Longrightarrow> P (finally_flush s)"
    and take: "\<And>s c. Q s \<Longrightarrow>
            Q (fst (after_chunk dur en c (extend_buffer (chunk c) (single_fetch c s))))"
  shows "P s \<Longrightarrow> P (loop_state (single_while tc m url dur en s rs))"
proof (induction rs arbitrary: s)
  case Nil
  then show ?case by simp
next
  case (Cons r rest)
  show ?case
  proof (cases "stop_recording s")
    case True
    with Cons.prems show ?thesis by simp
  next
    case ns: False
    show ?thesis
    proof (cases "alive r")
      case (Inl e)
      have "P (finally_flush (single_except tc m e s))"
        using Cons.prems pq ex fl by blast
      with Inl ns Cons.IH show ?thesis by simp
    next
      case (Inr b)
      show ?thesis
      proof (cases b)
        case False
        have "P (finally_flush s)" using Cons.prems pq fl by blast
        with Inr False ns show ?thesis by simp
      next
        case True
        obtain s1 x where sf:
          "single_for dur en (s\<lparr>trace := trace s @ [Download url]\<rparr>) (steps r) (ending r) = (s1, x)"
          by (cases "single_for dur en (s\<lparr>trace := trace s @ [Download url]\<rparr>) (steps r) (ending r)")
        have "Q (fst (single_for dur en (s\<lparr>trace := trace s @ [Download url]\<rparr>) (steps r) (ending r)))"
          using take dl [OF Cons.prems] by (rule single_for_rule)
        with sf have q1: "Q s1" by simp
        then have "P (finally_flush s1)" "\<And>e. P (finally_flush (single_except tc m e s1))"
          using ex fl by blast+
        with Inr True ns sf Cons.IH show ?thesis
          by (cases x) simp_all
      qed
    qed
  qed
qed

subsection \<open>Byte accounting\<close>












subsection \<open>The shape of a session\<close>

lemma emits_multi_while: "emits s0 s \<Longrightarrow> emits s0 (loop_state (multi_while url dur en s rs))"
proof (rule multi_while_rule [where P = "emits s0" and Q = "emits s0"])
  show "\<And>s c. emits s0 s \<Longrightarrow> \<not> stop_event_set (multi_fetch c s) \<Longrightarrow>
     emits s0 (fst (after_chunk dur en c (extend_buffer (chunk c) (multi_fetch c s))))"
    by (auto simp: emits_def after_chunk_def read_restart_def extend_buffer_def multi_fetch_def
        read_stop_def Let_def)
qed (auto simp: emits_def read_stop_def finally_flush_def multi_fetch_def Let_def)

lemma emits_single_while:
  "emits s0 s \<Longrightarrow> emits s0 (loop_state (single_while tc m url dur en s rs))"
proof (rule single_while_rule [where P = "emits s0" and Q = "emits s0"])
  show "\<And>s c. emits s0 s \<Longrightarrow>
     emits s0 (fst (after_chunk dur en c (extend_buffer (chunk c) (single_fetch c s))))"
    by (auto simp: emits_def after_chunk_def read_restart_def extend_buffer_def single_fetch_def
        Let_def)
qed (auto simp: emits_def single_except_def finally_flush_def Let_def)

lemma loop_events_no_close: "list_all loop_event evs \<Longrightarrow> CloseFile \<notin> set evs"
  by (induction evs) auto

lemma loop_events_takeWhile:
  "list_all loop_event evs \<Longrightarrow> takeWhile (\<lambda>ev. ev \<noteq> CloseFile) (evs @ CloseFile # rest) = evs"
  by (induction evs) auto

lemma loop_events_takeWhile_all:
  "list_all loop_event evs \<Longrightarrow> takeWhile (\<lambda>ev. ev \<noteq> CloseFile) evs = evs"
  by (induction evs) auto

lemma absorb_fst [simp]: "fst (absorb res) = fst res"
  by (cases res) (auto simp: absorb_def split: outcome.splits)

lemma multi_restart_test_trace:
  "multi_restart_test en e s = (s1, go) \<Longrightarrow>
   trace s1 = trace s \<or> trace s1 = trace s @ [CheckStop]"
  by (auto simp: multi_restart_test_def read_restart_def read_stop_def Let_def split: if_splits)

lemma multi_restart_test_go:
  "multi_restart_test en e s = (s1, go) \<Longrightarrow>
   go = (restart_requested s1 \<and> \<not> stop_event_set s1 \<and> alive_at_end e)"
  by (auto simp: multi_restart_test_def read_restart_def read_stop_def Let_def split: if_splits)

lemma single_restart_test_trace:
  "single_restart_test en e s = (s1, go) \<Longrightarrow> trace s1 = trace s"
  by (auto simp: single_restart_test_def read_restart_def Let_def)

lemma single_restart_test_go:
  "single_restart_test en e s = (s1, go) \<Longrightarrow> go = (restart_requested s1 \<and> alive_at_end e)"
  by (auto simp: single_restart_test_def read_restart_def Let_def)

lemma multi_while_raise: "multi_while url dur en s rs = LoopRaise ex s' \<Longrightarrow> \<not> is_Exception ex"
proof (induction rs arbitrary: s)
  case Nil
  then show ?case by (simp split: if_splits)
next
  case (Cons r rest)
  then show ?case
    by (auto simp: Let_def split: if_splits sum.splits bool.splits prod.splits option.splits)
qed

lemma single_while_raise: "single_while tc m url dur en s rs \<noteq> LoopRaise ex s'"
proof (induction rs arbitrary: s)
  case Nil
  then show ?case by simp
next
  case (Cons r rest)
  then show ?case
    by (auto simp: Let_def split: if_splits sum.splits bool.splits prod.splits option.splits)
qed

lemma after_loop_trace: "trace (after_loop r p s) = trace s @ closing r p"
  by (simp add: after_loop_def closing_def)

lemma multi_session_cases:
  obtains (running) evs where "list_all loop_event evs"
      "multi_session n tn nt r t stop e = Unfinished (t @ multi_header n tn nt r e @ evs) StillRunning"
  | (raised) evs ex where "list_all loop_event evs" "\<not> is_Exception ex"
      "multi_session n tn nt r t stop e =
         Unfinished (t @ multi_header n tn nt r e @ evs @ [CloseFile]) (Raised ex)"
  | (finished) evs s1 go xs where "list_all loop_event evs" "xs = [] \<or> xs = [CheckStop]"
      "multi_session n tn nt r t stop e = Finished s1 go"
      "trace s1 = t @ multi_header n tn nt r e @ evs
          @ closing r (multi_output_path n tn nt (rec_output r) (rec_user r) (current_date e)) @ xs"
      "go = (restart_requested s1 \<and> \<not> stop_event_set s1 \<and> alive_at_end e)"
proof -
  let ?h = "multi_header n tn nt r e"
  let ?p = "multi_output_path n tn nt (rec_output r) (rec_user r) (current_date e)"
  let ?L = "multi_while (the (live_url e)) (rec_duration r) (multi_enabled r e)
             (initial_state (t @ ?h) stop) (rounds e)"
  have "emits (initial_state (t @ ?h) stop) (loop_state ?L)"
    by (rule emits_multi_while) simp
  then obtain evs where evs: "trace (loop_state ?L) = t @ ?h @ evs" "list_all loop_event evs"
    by (auto simp: emits_def initial_state_def)
  show thesis
  proof (cases ?L)
    case (LoopRunning s)
    with evs have "multi_session n tn nt r t stop e = Unfinished (t @ ?h @ evs) StillRunning"
      by (simp add: multi_session_def)
    with evs(2) show thesis by (rule running)
  next
    case (LoopRaise ex s)
    with evs have "multi_session n tn nt r t stop e =
        Unfinished (t @ ?h @ evs @ [CloseFile]) (Raised ex)"
      by (simp add: multi_session_def)
    with evs(2) multi_while_raise [OF LoopRaise] show thesis by (rule raised)
  next
    case (LoopExit s)
    obtain s1 go where rt: "multi_restart_test (multi_enabled r e) e (after_loop r ?p s) = (s1, go)"
      by (cases "multi_restart_test (multi_enabled r e) e (after_loop r ?p s)")
    from multi_restart_test_trace [OF rt] obtain xs where
      xs: "xs = [] \<or> xs = [CheckStop]" "trace s1 = trace (after_loop r ?p s) @ xs" by auto
    have f: "multi_session n tn nt r t stop e = Finished s1 go"
      using LoopExit rt by (simp add: multi_session_def)
    have tr: "trace s1 = t @ ?h @ evs @ closing r ?p @ xs"
      using xs(2) evs(1) LoopExit by (simp add: after_loop_trace)
    from evs(2) xs(1) f tr multi_restart_test_go [OF rt] show thesis by (rule finished)
  qed
qed

lemma single_session_cases:
  obtains (running) evs where "list_all loop_event evs"
      "single_session tc nt r t e = Unfinished (t @ single_header nt r e @ evs) StillRunning"
  | (finished) evs s1 go where "list_all loop_event evs"
      "single_session tc nt r t e = Finished s1 go"
      "trace s1 = t @ single_header nt r e @ evs
          @ closing r (single_output_path nt (rec_output r) (rec_user r) (current_date e))"
      "go = (restart_requested s1 \<and> alive_at_end e)"
proof -
  let ?h = "single_header nt r e"
  let ?p = "single_output_path nt (rec_output r) (rec_user r) (current_date e)"
  let ?L = "single_while tc (rec_mode r) (the (live_url e)) (rec_duration r) (single_enabled r)
             (initial_state (t @ ?h) False) (rounds e)"
  have "emits (initial_state (t @ ?h) False) (loop_state ?L)"
    by (rule emits_single_while) simp
  then obtain evs where evs: "trace (loop_state ?L) = t @ ?h @ evs" "list_all loop_event evs"
    by (auto simp: emits_def initial_state_def)
  show thesis
  proof (cases ?L)
    case (LoopRunning s)
    with evs have "single_session tc nt r t e = Unfinished (t @ ?h @ evs) StillRunning"
      by (simp add: single_session_def)
    with evs(2) show thesis by (rule running)
  next
    case (LoopRaise ex s)
    with single_while_raise show thesis by blast
  next
    case (LoopExit s)
    obtain s1 go where rt: "single_restart_test (single_enabled r) e (after_loop r ?p s) = (s1, go)"
      by (cases "single_restart_test (single_enabled r) e (after_loop r ?p s)")
    have f: "single_session tc nt r t e = Finished s1 go"
      using LoopExit rt by (simp add: single_session_def)
    have tr: "trace s1 = t @ ?h @ evs @ closing r ?p"
      using single_restart_test_trace [OF rt] evs(1) LoopExit by (simp add: after_loop_trace)
    from evs(2) f tr single_restart_test_go [OF rt] show thesis by (rule finished)
  qed
qed

subsection \<open>The order of close and stop\<close>

lemma close_stop_closing [simp]: "close_stop (closing r p) = [CloseFile, StopMonitor]"
  by (simp add: closing_def)

lemma close_stop_multi_header [simp]: "close_stop (multi_header n tn nt r e) = []"
  by (simp add: multi_header_def)

lemma close_stop_single_header [simp]: "close_stop (single_header nt r e) = []"
  by (simp add: single_header_def)

lemma opened_multi_header [simp]:
  "opened (multi_header n tn nt r e) = [multi_path_of n tn nt r e]"
  by (simp add: multi_header_def multi_path_of_def)

lemma opened_single_header [simp]:
  "opened (single_header nt r e) = [single_path_of nt r e]"
  by (simp add: single_header_def single_path_of_def)

lemma opened_closing [simp]: "opened (closing r p) = []"
  by (simp add: closing_def)





subsection \<open>Writes and the open file\<close>




lemma closing_open [simp]:
  "writes_while_open opn (closing r p)" "\<not> open_after opn (closing r p)"
  by (simp_all add: closing_def)

lemma multi_header_open [simp]:
  "writes_while_open opn (multi_header n tn nt r e)" "open_after opn (multi_header n tn nt r e)"
  by (simp_all add: multi_header_def)

lemma single_header_open [simp]:
  "writes_while_open opn (single_header nt r e)" "open_after opn (single_header nt r e)"
  by (simp_all add: single_header_def)



subsection \<open>Bytes written\<close>

lemmas loop_eval =
  initial_state_def read_stop_def read_restart_def finally_flush_def extend_buffer_def
  after_chunk_def duration_reached_def single_except_def is_Exception_def buffer_size_def
  Let_def

lemmas session_eval =
  multi_session_def single_session_def multi_header_def single_header_def after_loop_def
  multi_restart_test_def single_restart_test_def multi_enabled_def multi_interval_def
  single_enabled_def absorb_def with_new_detector_def new_recorder_def

lemmas config_eval =
  should_restart_on_resolution_change_def get_resolution_check_interval_def lookup_setting_def
  get_user_setting_def get_room_setting_def default_get_def section_get_def str_truthy_def
  load_config_def default_config_def

lemmas path_eval =
  multi_output_path_def single_output_path_def output_suffix_def user_folder_def
  base_output_def ends_with_separator_def


lemma single_offline_run:
  "single_start_recording tc False alice [] [offline_env] =
     ([MakeDirs ''alice/'', OpenFile ''alice/TK_alice_2024.05.01_10-00-00_flv.mp4'',
       StartMonitor (Some ''http://pull/init.flv'') (JInt 5), Flush, CloseFile,
       StopMonitor, Convert ''alice/TK_alice_2024.05.01_10-00-00_flv.mp4''], Returned)"
  by (simp add: offline_env_def alice_def loop_eval session_eval config_eval path_eval)




subsection \<open>Transport errors inside the streaming loop\<close>

lemma single_for_raises_keeps_going:
  "single_for dur en s cs fin = (s1, Some e) \<Longrightarrow> stop_recording s1 = stop_recording s"
proof (induction cs arbitrary: s)
  case Nil
  then show ?case by (cases fin) auto
next
  case (Cons c cs)
  obtain s2 brk where ac:
    "after_chunk dur en c (extend_buffer (chunk c) (s\<lparr>received := received s @ chunk c\<rparr>)) = (s2, brk)"
    by (cases "after_chunk dur en c (extend_buffer (chunk c) (s\<lparr>received := received s @ chunk c\<rparr>))")
  with Cons.prems have nb: "\<not> brk" and rec: "single_for dur en s2 cs fin = (s1, Some e)"
    by (auto split: if_splits)
  from ac nb have "stop_recording s2 = stop_recording s"
    by (auto simp: after_chunk_def extend_buffer_def read_restart_def Let_def split: if_splits)
  with Cons.IH [OF rec] show ?case by simp
qed

text \<open>
  The single-stream recorder does what claim C8 says: when the connection breaks with a
  \<open>RequestException\<close> or an \<open>HTTPException\<close>, the loop sleeps two seconds, flushes the
  buffer and goes on with the next iteration, \<open>stop_recording\<close> still false.
\<close>

lemma single_retries_in_place:
  assumes "\<not> stop_recording s" and "alive r = Inr True"
    and "single_for dur en (s\<lparr>trace := trace s @ [Download url]\<rparr>) (steps r) (ending r) = (s1, Some e)"
    and "e = RequestException \<or> e = HTTPException"
  shows "single_while tc m url dur en s (r # rest) =
           single_while tc m url dur en (finally_flush (s1\<lparr>trace := trace s1 @ [Sleep 2]\<rparr>)) rest
         \<and> \<not> stop_recording (finally_flush (s1\<lparr>trace := trace s1 @ [Sleep 2]\<rparr>))"
proof -
  from single_for_raises_keeps_going [OF assms(3)] assms(1) have "\<not> stop_recording s1" by simp
  then have "\<not> stop_recording (finally_flush (s1\<lparr>trace := trace s1 @ [Sleep 2]\<rparr>))"
    by (simp add: finally_flush_def Let_def)
  moreover have "single_except tc m e s1 = s1\<lparr>trace := trace s1 @ [Sleep 2]\<rparr>"
    using assms(4) by (auto simp: single_except_def)
  ultimately show ?thesis using assms(1,2,3) by simp
qed

lemma single_dropout_run:
  "single_start_recording tc False alice [] [dropout_env] =
     ([MakeDirs ''alice/'', OpenFile ''alice/TK_alice_2024.05.01_10-00-00_flv.mp4'',
       StartMonitor (Some ''http://pull/init.flv'') (JInt 5),
       Download ''http://pull/stream.flv'', Sleep 2, Write [1, 2], Flush,
       Download ''http://pull/stream.flv'', Write [3], Flush, Flush, CloseFile,
       StopMonitor, Convert ''alice/TK_alice_2024.05.01_10-00-00_flv.mp4''], Returned)"
  by (simp add: dropout_env_def alice_def loop_eval session_eval config_eval path_eval)

text \<open>
  Claim C8 fails in the multi-stream recorder. Its loop has the one handler
  \<open>except Exception\<close>, which sets \<open>stop_recording\<close>: when the first connection breaks
  with a \<open>RequestException\<close>, the session ends at once, with no sleep and no second
  download, although the target is still live and a second connection would have
  succeeded.
\<close>

theorem multi_disconnect_ends_session:
  "multi_start_recording 2 (stream_key 0) False alice [] False [dropout_env] =
     ([MakeDirs ''alice/'', OpenFile ''alice/TK_alice_2024.05.01_10-00-00_Stream-1_flv.mp4'',
       StartMonitor (Some ''http://pull/stream.flv'') (JInt 5), CheckStop,
       Download ''http://pull/stream.flv'', CheckStop, Write [1, 2], Flush,
       CloseFile, StopMonitor,
       Convert ''alice/TK_alice_2024.05.01_10-00-00_Stream-1_flv.mp4''], Returned)"
  by (simp add: dropout_env_def alice_def loop_eval session_eval config_eval path_eval
      stream_key_def str_nat.simps digit_char_def)

subsection \<open>Traces grow, and a session starts with its header\<close>

lemma multi_extends: "\<exists>post. fst (multi_start_recording n tn nt r t stop es) = t @ post"
proof (induction es arbitrary: t stop)
  case Nil
  show ?case by simp
next
  case (Cons e es)
  show ?case
  proof (cases "str_truthy (live_url e)")
    case False
    then show ?thesis by simp
  next
    case True
    show ?thesis
    proof (cases rule: multi_session_cases [of n tn nt r t stop e])
      case (running evs)
      with True show ?thesis by simp
    next
      case (raised evs ex)
      with True show ?thesis by simp
    next
      case (finished evs s1 go xs)
      from Cons.IH [of "trace s1 @ [Sleep 2]" "stop_event_set s1"] obtain post where
        "fst (multi_start_recording n tn nt r (trace s1 @ [Sleep 2]) (stop_event_set s1) es)
           = trace s1 @ [Sleep 2] @ post" by auto
      with True finished(3,4) show ?thesis
        by (auto split: sum.splits)
    qed
  qed
qed

lemma single_extends: "\<exists>post. fst (single_start_recording tc nt r t es) = t @ post"
proof (induction es arbitrary: t r)
  case Nil
  show ?case by simp
next
  case (Cons e es)
  show ?case
  proof (cases "str_truthy (live_url e)")
    case False
    then show ?thesis by simp
  next
    case True
    show ?thesis
    proof (cases rule: single_session_cases [of tc nt r t e])
      case (running evs)
      with True show ?thesis by simp
    next
      case (finished evs s1 go)
      have "\<And>u. \<exists>post. fst (single_start_recording tc nt (with_new_detector r u)
               (trace s1 @ [Sleep 2]) es) = trace s1 @ [Sleep 2] @ post"
        using Cons.IH [of _ "trace s1 @ [Sleep 2]"] by auto
      with True finished(2,3) show ?thesis
        by (auto split: sum.splits)
    qed
  qed
qed

lemma multi_starts_with_header:
  assumes "str_truthy (live_url e)"
  shows "\<exists>post. fst (multi_start_recording n tn nt r t stop (e # es))
           = t @ multi_header n tn nt r e @ post"
proof (cases rule: multi_session_cases [of n tn nt r t stop e])
  case (running evs)
  with assms show ?thesis by simp
next
  case (raised evs ex)
  with assms show ?thesis by simp
next
  case (finished evs s1 go xs)
  from multi_extends [of n tn nt r "trace s1 @ [Sleep 2]" "stop_event_set s1" es]
  obtain post where
    "fst (multi_start_recording n tn nt r (trace s1 @ [Sleep 2]) (stop_event_set s1) es)
       = trace s1 @ [Sleep 2] @ post" by auto
  with assms finished(3,4) show ?thesis
    by (auto split: sum.splits)
qed

lemma single_starts_with_header:
  assumes "str_truthy (live_url e)"
  shows "\<exists>post. fst (single_start_recording tc nt r t (e # es))
           = t @ single_header nt r e @ post"
proof (cases rule: single_session_cases [of tc nt r t e])
  case (running evs)
  with assms show ?thesis by simp
next
  case (finished evs s1 go)
  have "\<And>u. \<exists>post. fst (single_start_recording tc nt (with_new_detector r u)
               (trace s1 @ [Sleep 2]) es) = trace s1 @ [Sleep 2] @ post"
    using single_extends [of tc nt _ "trace s1 @ [Sleep 2]" es] by auto
  with assms finished(2,3) show ?thesis
    by (auto split: sum.splits)
qed

subsection \<open>The restart after a resolution change\<close>











subsection \<open>Close and stop over a run\<close>





subsection \<open>Settings and when they are read\<close>

lemma lookup_setting_order:
  "lookup_setting c user room_id setting fallback =
     (if str_truthy user then
        (case override_of (users_section c) user setting of
           Some v \<Rightarrow> v | None \<Rightarrow> default_get c setting fallback)
      else if str_truthy room_id then
        (case override_of (rooms_section c) room_id setting of
           Some v \<Rightarrow> v | None \<Rightarrow> default_get c setting fallback)
      else default_get c setting fallback)"
  by (auto simp: lookup_setting_def get_user_setting_def get_room_setting_def override_of_def
      str_truthy_def Let_def split: option.splits)

lemma no_flag_multi_while:
  "\<not> restart_requested s \<Longrightarrow> \<not> restart_requested (loop_state (multi_while url dur False s rs))"
proof (rule multi_while_rule [where P = "\<lambda>s. \<not> restart_requested s"
      and Q = "\<lambda>s. \<not> restart_requested s"])
  show "\<And>s c. \<not> restart_requested s \<Longrightarrow> \<not> stop_event_set (multi_fetch c s) \<Longrightarrow>
     \<not> restart_requested (fst (after_chunk dur False c (extend_buffer (chunk c) (multi_fetch c s))))"
    by (simp add: after_chunk_def read_restart_def extend_buffer_def multi_fetch_def
        read_stop_def Let_def)
qed (simp_all add: read_stop_def finally_flush_def multi_fetch_def Let_def)

lemma no_flag_single_while:
  "\<not> restart_requested s \<Longrightarrow>
   \<not> restart_requested (loop_state (single_while tc m url dur False s rs))"
proof (rule single_while_rule [where P = "\<lambda>s. \<not> restart_requested s"
      and Q = "\<lambda>s. \<not> restart_requested s"])
  show "\<And>s c. \<not> restart_requested s \<Longrightarrow>
     \<not> restart_requested (fst (after_chunk dur False c (extend_buffer (chunk c) (single_fetch c s))))"
    by (simp add: after_chunk_def read_restart_def extend_buffer_def single_fetch_def Let_def)
qed (simp_all add: single_except_def finally_flush_def Let_def)

lemma multi_session_disabled:
  assumes "\<not> multi_enabled r e" and "multi_session n tn nt r t stop e = Finished s1 go"
  shows "\<not> go"
proof -
  let ?L = "multi_while (the (live_url e)) (rec_duration r) False
             (initial_state (t @ multi_header n tn nt r e) stop) (rounds e)"
  have nf: "\<not> restart_requested (loop_state ?L)"
    by (rule no_flag_multi_while) (simp add: initial_state_def)
  from assms show ?thesis
  proof (cases ?L)
    case (LoopExit s)
    with nf have "\<not> restart_requested s" by simp
    with assms LoopExit show ?thesis
      by (auto simp: multi_session_def multi_restart_test_def read_restart_def after_loop_def
          Let_def)
  qed (simp_all add: multi_session_def)
qed

lemma single_session_disabled:
  assumes "\<not> single_enabled r" and "single_session tc nt r t e = Finished s1 go"
  shows "\<not> go"
proof -
  let ?L = "single_while tc (rec_mode r) (the (live_url e)) (rec_duration r) False
             (initial_state (t @ single_header nt r e) False) (rounds e)"
  have nf: "\<not> restart_requested (loop_state ?L)"
    by (rule no_flag_single_while) (simp add: initial_state_def)
  from assms show ?thesis
  proof (cases ?L)
    case (LoopExit s)
    with nf have "\<not> restart_requested s" by simp
    with assms LoopExit show ?thesis
      by (auto simp: single_session_def single_restart_test_def read_restart_def after_loop_def
          Let_def)
  qed (simp_all add: single_session_def)
qed

lemma multi_disabled_no_restart:
  "\<not> multi_enabled r e \<Longrightarrow>
   multi_start_recording n tn nt r t stop (e # es) = multi_start_recording n tn nt r t stop [e]"
  by (cases "multi_session n tn nt r t stop e") (auto dest: multi_session_disabled)

lemma single_disabled_no_restart:
  "\<not> single_enabled r \<Longrightarrow>
   single_start_recording tc nt r t (e # es) = single_start_recording tc nt r t [e]"
  by (cases "single_session tc nt r t e") (auto dest: single_session_disabled)

lemma single_session_ignores_file:
  "single_session tc nt r t (e\<lparr>config_file := f\<rparr>) = single_session tc nt r t e"
  by (simp add: single_session_def single_header_def single_restart_test_def
      split: loop_result.splits)

lemma single_ignores_file:
  "single_start_recording tc nt r t (map (\<lambda>e. e\<lparr>config_file := f e\<rparr>) es)
     = single_start_recording tc nt r t es"
proof (induction es arbitrary: r t)
  case Nil
  show ?case by simp
next
  case (Cons e es)
  show ?case
    by (simp add: single_session_ignores_file Cons.IH
        split: session_result.splits sum.splits)
qed

text \<open>
  What the code does with the two settings. Both are resolved by the same chain: with a
  user given, the user's override when there is one and otherwise the global default,
  the room's override not being consulted; with no user but a room given, the room's
  override when there is one and otherwise the global default; with neither, the global
  default; the built-in value (false, 5) stands in for a default that is absent. The
  multi-stream recorder loads the configuration file at the start of each session: the
  monitor of the session gets the check interval of the file as it is then, and a file
  that does not enable the restart then means that the session is never followed by a
  restart. The single-stream recorder loads the file once, when the recorder is
  constructed: its sessions use the interval and the flag of that configuration,
  whatever the file holds when they start.
\<close>

lemma settings_lookup_and_loading:
  "should_restart_on_resolution_change c user room_id =
     (if str_truthy user then
        (case override_of (users_section c) user ''restart_on_resolution_change'' of
           Some v \<Rightarrow> v
         | None \<Rightarrow> default_get c ''restart_on_resolution_change'' (JBool False))
      else if str_truthy room_id then
        (case override_of (rooms_section c) room_id ''restart_on_resolution_change'' of
           Some v \<Rightarrow> v
         | None \<Rightarrow> default_get c ''restart_on_resolution_change'' (JBool False))
      else default_get c ''restart_on_resolution_change'' (JBool False))
   \<and> get_resolution_check_interval c user room_id =
     (if str_truthy user then
        (case override_of (users_section c) user ''resolution_check_interval'' of
           Some v \<Rightarrow> v
         | None \<Rightarrow> default_get c ''resolution_check_interval'' (JInt 5))
      else if str_truthy room_id then
        (case override_of (rooms_section c) room_id ''resolution_check_interval'' of
           Some v \<Rightarrow> v
         | None \<Rightarrow> default_get c ''resolution_check_interval'' (JInt 5))
      else default_get c ''resolution_check_interval'' (JInt 5))
   \<and> (str_truthy (live_url e) \<longrightarrow>
        (\<exists>post. fst (multi_start_recording n tn nt r t stop (e # es)) =
           t @ [MakeDirs (user_folder nt (rec_output r) (rec_user r)),
                OpenFile (multi_output_path n tn nt (rec_output r) (rec_user r) (current_date e)),
                StartMonitor (Some (the (live_url e)))
                  (get_resolution_check_interval (load_config (config_file e))
                     (Some (rec_user r)) (Some (rec_room_id r)))] @ post))
   \<and> (\<not> truthy (should_restart_on_resolution_change (load_config (config_file e))
                   (Some (rec_user r)) (Some (rec_room_id r))) \<longrightarrow>
        multi_start_recording n tn nt r t stop (e # es)
          = multi_start_recording n tn nt r t stop [e])
   \<and> single_start_recording tc nt r t (map (\<lambda>e. e\<lparr>config_file := f e\<rparr>) es)
        = single_start_recording tc nt r t es
   \<and> (str_truthy (live_url e) \<longrightarrow>
        (\<exists>post. fst (single_start_recording tc nt r t (e # es)) =
           t @ [MakeDirs (user_folder nt (rec_output r) (rec_user r)),
                OpenFile (single_output_path nt (rec_output r) (rec_user r) (current_date e)),
                StartMonitor (detector_url r) (detector_interval r)] @ post))
   \<and> (\<not> truthy (should_restart_on_resolution_change (rec_config r)
                   (Some (rec_user r)) (Some (rec_room_id r))) \<longrightarrow>
        single_start_recording tc nt r t (e # es) = single_start_recording tc nt r t [e])
   \<and> rec_config (new_recorder u0 r0 m0 i0 o0 d0 g0 cf l0) = load_config cf
   \<and> detector_interval (new_recorder u0 r0 m0 i0 o0 d0 g0 cf l0)
        = get_resolution_check_interval (load_config cf) (Some u0) (Some r0)"
proof -
  have a: "should_restart_on_resolution_change c user room_id =
     (if str_truthy user then
        (case override_of (users_section c) user ''restart_on_resolution_change'' of
           Some v \<Rightarrow> v
         | None \<Rightarrow> default_get c ''restart_on_resolution_change'' (JBool False))
      else if str_truthy room_id then
        (case override_of (rooms_section c) room_id ''restart_on_resolution_change'' of
           Some v \<Rightarrow> v
         | None \<Rightarrow> default_get c ''restart_on_resolution_change'' (JBool False))
      else default_get c ''restart_on_resolution_change'' (JBool False))"
    unfolding should_restart_on_resolution_change_def by (rule lookup_setting_order)
  have b: "get_resolution_check_interval c user room_id =
     (if str_truthy user then
        (case override_of (users_section c) user ''resolution_check_interval'' of
           Some v \<Rightarrow> v
         | None \<Rightarrow> default_get c ''resolution_check_interval'' (JInt 5))
      else if str_truthy room_id then
        (case override_of (rooms_section c) room_id ''resolution_check_interval'' of
           Some v \<Rightarrow> v
         | None \<Rightarrow> default_get c ''resolution_check_interval'' (JInt 5))
      else default_get c ''resolution_check_interval'' (JInt 5))"
    unfolding get_resolution_check_interval_def by (rule lookup_setting_order)
  have c: "str_truthy (live_url e) \<longrightarrow>
        (\<exists>post. fst (multi_start_recording n tn nt r t stop (e # es)) =
           t @ [MakeDirs (user_folder nt (rec_output r) (rec_user r)),
                OpenFile (multi_output_path n tn nt (rec_output r) (rec_user r) (current_date e)),
                StartMonitor (Some (the (live_url e)))
                  (get_resolution_check_interval (load_config (config_file e))
                     (Some (rec_user r)) (Some (rec_room_id r)))] @ post)"
    using multi_starts_with_header [of e n tn nt r t stop es]
    by (simp add: multi_header_def multi_interval_def)
  have d: "\<not> truthy (should_restart_on_resolution_change (load_config (config_file e))
                   (Some (rec_user r)) (Some (rec_room_id r))) \<longrightarrow>
        multi_start_recording n tn nt r t stop (e # es)
          = multi_start_recording n tn nt r t stop [e]"
    using multi_disabled_no_restart [of r e n tn nt t stop es]
    by (simp add: multi_enabled_def)
  have e: "single_start_recording tc nt r t (map (\<lambda>e. e\<lparr>config_file := f e\<rparr>) es)
        = single_start_recording tc nt r t es"
    by (rule single_ignores_file)
  have f: "str_truthy (live_url e) \<longrightarrow>
        (\<exists>post. fst (single_start_recording tc nt r t (e # es)) =
           t @ [MakeDirs (user_folder nt (rec_output r) (rec_user r)),
                OpenFile (single_output_path nt (rec_output r) (rec_user r) (current_date e)),
                StartMonitor (detector_url r) (detector_interval r)] @ post)"
    using single_starts_with_header [of e tc nt r t es]
    by (simp add: single_header_def)
  have g: "\<not> truthy (should_restart_on_resolution_change (rec_config r)
                   (Some (rec_user r)) (Some (rec_room_id r))) \<longrightarrow>
        single_start_recording tc nt r t (e # es) = single_start_recording tc nt r t [e]"
    using single_disabled_no_restart [of r tc nt t e es]
    by (simp add: single_enabled_def)
  have h: "rec_config (new_recorder u0 r0 m0 i0 o0 d0 g0 cf l0) = load_config cf"
    "detector_interval (new_recorder u0 r0 m0 i0 o0 d0 g0 cf l0)
        = get_resolution_check_interval (load_config cf) (Some u0) (Some r0)"
    by (simp_all add: new_recorder_def)
  from a b c d e f g h show ?thesis by (intro conjI)
qed

lemmas c9_eval = late_change_env_def room_change_env_def alice_by_room_def room_only_config_def
  change_env_def resumed_env_def restart_config_def alice_def minutes_def
  loop_eval session_eval config_eval path_eval

text \<open>
  Claim C9 fails on the code. In \<open>room_only_config\<close> the user \<open>alice\<close> has no override,
  room \<open>7001\<close> enables the restart and the default disables it: the order of the claim
  gives the room's value, the code gives the default, because both recorders pass the
  user, which \<open>TikTokRecorder.__init__\<close> always resolves, and the lookup then never
  reaches the room. So a session of either recorder in which the resolution changes ends
  without a restart, in one file. And the settings are read at the start of each session
  by the multi-stream recorder only: when the file enables the restart for the user after
  the recorders were constructed, the multi-stream recorder restarts into a second file
  and the single-stream recorder, which loaded the file in \<open>__init__\<close>, does not.
\<close>

theorem room_override_never_takes_effect:
  "spec_setting room_only_config (Some ''alice'') (Some ''7001'')
       ''restart_on_resolution_change'' (JBool False) = JBool True
   \<and> should_restart_on_resolution_change room_only_config (Some ''alice'') (Some ''7001'')
       = JBool False
   \<and> multi_start_recording 1 (stream_key 0) False alice [] False [room_change_env, resumed_env]
       = ([MakeDirs ''alice/'', OpenFile ''alice/TK_alice_2024.05.01_09-00-00_flv.mp4'',
           StartMonitor (Some ''http://pull/low.flv'') (JInt 5), CheckStop,
           Download ''http://pull/low.flv'', CheckStop, Write [1], Flush, CheckStop, Flush,
           CloseFile, StopMonitor, Convert ''alice/TK_alice_2024.05.01_09-00-00_flv.mp4''],
          Returned)
   \<and> single_start_recording minutes False alice_by_room [] [room_change_env, resumed_env]
       = ([MakeDirs ''alice/'', OpenFile ''alice/TK_alice_2024.05.01_09-00-00_flv.mp4'',
           StartMonitor (Some ''http://pull/init.flv'') (JInt 5),
           Download ''http://pull/low.flv'', Write [1], Flush, Flush,
           CloseFile, StopMonitor, Convert ''alice/TK_alice_2024.05.01_09-00-00_flv.mp4''],
          Returned)
   \<and> opened (fst (multi_start_recording 1 (stream_key 0) False alice [] False
                    [late_change_env, resumed_env]))
       = [''alice/TK_alice_2024.05.01_09-00-00_flv.mp4'',
          ''alice/TK_alice_2024.05.01_09-30-00_flv.mp4'']
   \<and> opened (fst (single_start_recording minutes False alice [] [late_change_env, resumed_env]))
       = [''alice/TK_alice_2024.05.01_09-00-00_flv.mp4'']"
proof (intro conjI)
  show "spec_setting room_only_config (Some ''alice'') (Some ''7001'')
       ''restart_on_resolution_change'' (JBool False) = JBool True"
    by (simp add: room_only_config_def spec_setting_def override_of_def config_eval)
  show "should_restart_on_resolution_change room_only_config (Some ''alice'') (Some ''7001'')
       = JBool False"
    by (simp add: room_only_config_def config_eval)
  show "multi_start_recording 1 (stream_key 0) False alice [] False [room_change_env, resumed_env]
       = ([MakeDirs ''alice/'', OpenFile ''alice/TK_alice_2024.05.01_09-00-00_flv.mp4'',
           StartMonitor (Some ''http://pull/low.flv'') (JInt 5), CheckStop,
           Download ''http://pull/low.flv'', CheckStop, Write [1], Flush, CheckStop, Flush,
           CloseFile, StopMonitor, Convert ''alice/TK_alice_2024.05.01_09-00-00_flv.mp4''],
          Returned)"
    by (simp add: c9_eval)
  show "single_start_recording minutes False alice_by_room [] [room_change_env, resumed_env]
       = ([MakeDirs ''alice/'', OpenFile ''alice/TK_alice_2024.05.01_09-00-00_flv.mp4'',
           StartMonitor (Some ''http://pull/init.flv'') (JInt 5),
           Download ''http://pull/low.flv'', Write [1], Flush, Flush,
           CloseFile, StopMonitor, Convert ''alice/TK_alice_2024.05.01_09-00-00_flv.mp4''],
          Returned)"
    by (simp add: c9_eval)
  show "opened (fst (multi_start_recording 1 (stream_key 0) False alice [] False
                    [late_change_env, resumed_env]))
       = [''alice/TK_alice_2024.05.01_09-00-00_flv.mp4'',
          ''alice/TK_alice_2024.05.01_09-30-00_flv.mp4'']"
    by (simp add: c9_eval)
  show "opened (fst (single_start_recording minutes False alice [] [late_change_env, resumed_env]))
       = [''alice/TK_alice_2024.05.01_09-00-00_flv.mp4'']"
    by (simp add: c9_eval)
qed

subsection \<open>Decimal numerals and output paths\<close>

lemma digit_val_digit_char: "d < 10 \<Longrightarrow> digit_val (digit_char d) = d"
proof -
  assume "d < 10"
  then consider "d = 0" | "d = 1" | "d = 2" | "d = 3" | "d = 4" | "d = 5" | "d = 6"
    | "d = 7" | "d = 8" | "d = 9" by atomize_elim arith
  then show ?thesis
    by cases (simp_all add: digit_val_def digit_char_def)
qed

lemma digit_char_not_dash: "d < 10 \<Longrightarrow> digit_char d \<noteq> CHR ''-''"
proof -
  assume "d < 10"
  then consider "d = 0" | "d = 1" | "d = 2" | "d = 3" | "d = 4" | "d = 5" | "d = 6"
    | "d = 7" | "d = 8" | "d = 9" by atomize_elim arith
  then show ?thesis
    by cases (simp_all add: digit_char_def)
qed

lemma val_of_digits_snoc: "val_of_digits (s @ [c]) = 10 * val_of_digits s + digit_val c"
  by (simp add: val_of_digits_def)

lemma val_of_str_nat: "val_of_digits (str_nat n) = n"
proof (induction n rule: str_nat.induct)
  case (1 n)
  show ?case
  proof (cases "n < 10")
    case True
    then show ?thesis
      by (subst str_nat.simps) (simp add: val_of_digits_def digit_val_digit_char)
  next
    case False
    with 1 have "val_of_digits (str_nat (n div 10)) = n div 10" by simp
    with False show ?thesis
      by (subst str_nat.simps) (simp add: val_of_digits_snoc digit_val_digit_char)
  qed
qed

lemma str_nat_inj: "str_nat m = str_nat n \<Longrightarrow> m = n"
  by (metis val_of_str_nat)

lemma str_nat_no_dash: "CHR ''-'' \<notin> set (str_nat n)"
proof (induction n rule: str_nat.induct)
  case (1 n)
  show ?case
  proof (cases "n < 10")
    case True
    then show ?thesis
      using digit_char_not_dash [of n] by (subst str_nat.simps) auto
  next
    case False
    with 1 have "CHR ''-'' \<notin> set (str_nat (n div 10))" by simp
    with False show ?thesis
      using digit_char_not_dash [of "n mod 10"] by (subst str_nat.simps) auto
  qed
qed

lemma after_last_dash:
  assumes "x @ CHR ''-'' # d1 = y @ CHR ''-'' # d2"
    and "CHR ''-'' \<notin> set d1" and "CHR ''-'' \<notin> set d2"
  shows "d1 = d2"
proof -
  from assms(1) have "rev (x @ CHR ''-'' # d1) = rev (y @ CHR ''-'' # d2)" by simp
  then have "rev d1 @ CHR ''-'' # rev x = rev d2 @ CHR ''-'' # rev y" by simp
  then have "takeWhile (\<lambda>c. c \<noteq> CHR ''-'') (rev d1 @ CHR ''-'' # rev x)
      = takeWhile (\<lambda>c. c \<noteq> CHR ''-'') (rev d2 @ CHR ''-'' # rev y)" by simp
  moreover have "takeWhile (\<lambda>c. c \<noteq> CHR ''-'') (rev d1 @ CHR ''-'' # rev x) = rev d1"
    using assms(2) by (auto simp: takeWhile_tail takeWhile_eq_all_conv)
  moreover have "takeWhile (\<lambda>c. c \<noteq> CHR ''-'') (rev d2 @ CHR ''-'' # rev y) = rev d2"
    using assms(3) by (auto simp: takeWhile_tail takeWhile_eq_all_conv)
  ultimately show ?thesis by simp
qed

lemma stream_paths_differ:
  assumes "n > 1" and "i \<noteq> j"
  shows "multi_output_path n (stream_key i) nt out1 u1 d1
           \<noteq> multi_output_path n (stream_key j) nt out2 u2 d2"
proof
  assume eq: "multi_output_path n (stream_key i) nt out1 u1 d1
           = multi_output_path n (stream_key j) nt out2 u2 d2"
  let ?a = "user_folder nt out1 u1 @ ''TK_'' @ u1 @ ''_'' @ d1 @ ''_Stream''"
  let ?b = "user_folder nt out2 u2 @ ''TK_'' @ u2 @ ''_'' @ d2 @ ''_Stream''"
  from eq assms(1) have "(?a @ CHR ''-'' # str_nat (i + 1)) @ ''_flv.mp4''
      = (?b @ CHR ''-'' # str_nat (j + 1)) @ ''_flv.mp4''"
    by (simp add: multi_output_path_def output_suffix_def stream_key_def)
  then have "?a @ CHR ''-'' # str_nat (i + 1) = ?b @ CHR ''-'' # str_nat (j + 1)"
    by (simp only: append_same_eq)
  then have "str_nat (i + 1) = str_nat (j + 1)"
    by (rule after_last_dash) (rule str_nat_no_dash)+
  then have "i + 1 = j + 1" by (rule str_nat_inj)
  with assms(2) show False by simp
qed

lemma multi_path_date_inj:
  "multi_output_path n tn nt out u d1 = multi_output_path n tn nt out u d2 \<Longrightarrow> d1 = d2"
  by (simp add: multi_output_path_def)

lemma single_path_date_inj:
  "single_output_path nt out u d1 = single_output_path nt out u d2 \<Longrightarrow> d1 = d2"
  by (simp add: single_output_path_def)

subsection \<open>Output files over a chain of restarts\<close>

lemma single_path_of_new_detector [simp]:
  "single_path_of nt (with_new_detector r u) = single_path_of nt r"
  by (rule ext) (simp add: single_path_of_def with_new_detector_def)

lemma multi_opened:
  "\<exists>k\<le>length es. opened (fst (multi_start_recording n tn nt r t stop es))
      = opened t @ map (multi_path_of n tn nt r) (take k es)"
proof (induction es arbitrary: t stop)
  case Nil
  show ?case by simp
next
  case (Cons e es)
  show ?case
  proof (cases "str_truthy (live_url e)")
    case False
    then show ?thesis by (intro exI [of _ 0]) simp
  next
    case True
    show ?thesis
    proof (cases rule: multi_session_cases [of n tn nt r t stop e])
      case (running evs)
      with True show ?thesis
        by (intro exI [of _ 1]) (simp add: loop_events_opened)
    next
      case (raised evs ex)
      with True show ?thesis
        by (intro exI [of _ 1]) (simp add: loop_events_opened)
    next
      case (finished evs s1 go xs)
      have o1: "opened (trace s1) = opened t @ [multi_path_of n tn nt r e]"
        using finished(1,2,4) by (auto simp: loop_events_opened)
      show ?thesis
      proof (cases "go \<and> (\<exists>u. restart_url e = Inr u \<and> str_truthy u)")
        case False
        with True finished(3) o1 show ?thesis
          by (intro exI [of _ 1]) (auto split: sum.splits)
      next
        case go: True
        then obtain u where u: "restart_url e = Inr u" "str_truthy u" by blast
        let ?rec = "multi_start_recording n tn nt r (trace s1 @ [Sleep 2]) (stop_event_set s1) es"
        have eq: "multi_start_recording n tn nt r t stop (e # es) = absorb ?rec"
          using True finished(3) go u by simp
        from Cons.IH [of "trace s1 @ [Sleep 2]" "stop_event_set s1"] obtain k where
          k: "k \<le> length es" "opened (fst ?rec)
               = opened (trace s1 @ [Sleep 2]) @ map (multi_path_of n tn nt r) (take k es)"
          by blast
        with eq o1 show ?thesis
          by (intro exI [of _ "Suc k"]) simp
      qed
    qed
  qed
qed

lemma single_opened:
  "\<exists>k\<le>length es. opened (fst (single_start_recording tc nt r t es))
      = opened t @ map (single_path_of nt r) (take k es)"
proof (induction es arbitrary: t r)
  case Nil
  show ?case by simp
next
  case (Cons e es)
  show ?case
  proof (cases "str_truthy (live_url e)")
    case False
    then show ?thesis by (intro exI [of _ 0]) simp
  next
    case True
    show ?thesis
    proof (cases rule: single_session_cases [of tc nt r t e])
      case (running evs)
      with True show ?thesis
        by (intro exI [of _ 1]) (simp add: loop_events_opened)
    next
      case (finished evs s1 go)
      have o1: "opened (trace s1) = opened t @ [single_path_of nt r e]"
        using finished(1,3) by (auto simp: loop_events_opened)
      show ?thesis
      proof (cases "go \<and> (\<exists>u. restart_url e = Inr u \<and> str_truthy u)")
        case False
        with True finished(2) o1 show ?thesis
          by (intro exI [of _ 1]) (auto split: sum.splits)
      next
        case go: True
        then obtain u where u: "restart_url e = Inr u" "str_truthy u" by blast
        let ?rec = "single_start_recording tc nt (with_new_detector r u) (trace s1 @ [Sleep 2]) es"
        have eq: "single_start_recording tc nt r t (e # es) = absorb ?rec"
          using True finished(2) go u by simp
        from Cons.IH [of "with_new_detector r u" "trace s1 @ [Sleep 2]"] obtain k where
          k: "k \<le> length es" "opened (fst ?rec)
               = opened (trace s1 @ [Sleep 2]) @ map (single_path_of nt r) (take k es)"
          by auto
        with eq o1 show ?thesis
          by (intro exI [of _ "Suc k"]) simp
      qed
    qed
  qed
qed

lemma distinct_paths_of_dates:
  assumes "distinct (map current_date es)"
  shows "distinct (map (multi_path_of n tn nt r) (take k es))"
    and "distinct (map (single_path_of nt r) (take k es))"
proof -
  from assms have d: "distinct es" and i: "inj_on current_date (set es)"
    by (simp_all add: distinct_map)
  have sub: "set (take k es) \<subseteq> set es" by (rule set_take_subset)
  have "inj_on (multi_path_of n tn nt r) (set (take k es))"
  proof (rule inj_onI)
    fix a b
    assume "a \<in> set (take k es)" "b \<in> set (take k es)"
      and "multi_path_of n tn nt r a = multi_path_of n tn nt r b"
    then have "a \<in> set es" "b \<in> set es" "current_date a = current_date b"
      using sub by (auto simp: multi_path_of_def dest: multi_path_date_inj)
    with i show "a = b" by (auto dest: inj_onD)
  qed
  with d show "distinct (map (multi_path_of n tn nt r) (take k es))"
    by (simp add: distinct_map)
  have "inj_on (single_path_of nt r) (set (take k es))"
  proof (rule inj_onI)
    fix a b
    assume "a \<in> set (take k es)" "b \<in> set (take k es)"
      and "single_path_of nt r a = single_path_of nt r b"
    then have "a \<in> set es" "b \<in> set es" "current_date a = current_date b"
      using sub by (auto simp: single_path_of_def dest: single_path_date_inj)
    with i show "a = b" by (auto dest: inj_onD)
  qed
  with d show "distinct (map (single_path_of nt r) (take k es))"
    by (simp add: distinct_map)
qed

lemma restarts_after_append:
  "restarts_after p (t @ u) = restarts_after p t + restarts_after (paused_after p t) u"
  by (induction p t rule: restarts_after.induct) simp_all

lemma paused_after_append: "paused_after p (t @ u) = paused_after (paused_after p t) u"
  by (induction p t rule: paused_after.induct) simp_all

lemma loop_events_restarts: "list_all loop_event evs \<Longrightarrow> restarts_after p evs = 0"
  by (induction p evs rule: restarts_after.induct) simp_all

lemma restarts_multi_header:
  "restarts_after p (multi_header n tn nt r e) = (if p then 1 else 0)"
  "paused_after p (multi_header n tn nt r e) = False"
  by (simp_all add: multi_header_def)

lemma restarts_single_header:
  "restarts_after p (single_header nt r e) = (if p then 1 else 0)"
  "paused_after p (single_header nt r e) = False"
  by (simp_all add: single_header_def)

lemma restarts_closing:
  "restarts_after p (closing r q) = 0" "paused_after p (closing r q) = False"
  by (simp_all add: closing_def)

lemmas restarts_simps =
  restarts_after_append paused_after_append loop_events_restarts restarts_multi_header
  restarts_single_header restarts_closing loop_events_opened

lemma multi_restarts:
  "length (opened (fst (multi_start_recording n tn nt r t stop es))) + restarts_after False t
     + (if (case es of [] \<Rightarrow> False | e # x \<Rightarrow> str_truthy (live_url e)) \<and> \<not> paused_after False t
        then 0 else 1)
   = Suc (length (opened t)
          + restarts_after False (fst (multi_start_recording n tn nt r t stop es)))"
proof (induction es arbitrary: t stop)
  case Nil
  show ?case by simp
next
  case (Cons e es)
  show ?case
  proof (cases "str_truthy (live_url e)")
    case False
    then show ?thesis by simp
  next
    case True
    show ?thesis
    proof (cases rule: multi_session_cases [of n tn nt r t stop e])
      case (running evs)
      with True show ?thesis by (simp add: restarts_simps)
    next
      case (raised evs ex)
      with True show ?thesis by (simp add: restarts_simps)
    next
      case (finished evs s1 go xs)
      have o1: "length (opened (trace s1)) = Suc (length (opened t))"
        using finished(1,2,4) by (auto simp: loop_events_opened)
      have r1: "restarts_after False (trace s1)
          = restarts_after False t + (if paused_after False t then 1 else 0)"
        using finished(1,2,4) by (auto simp: restarts_simps)
      have r2: "restarts_after False (trace s1 @ [Sleep 2]) = restarts_after False (trace s1)"
        "paused_after False (trace s1 @ [Sleep 2])"
        by (simp_all add: restarts_simps)
      show ?thesis
      proof (cases "go \<and> (\<exists>u. restart_url e = Inr u \<and> str_truthy u)")
        case False
        with True finished(3) o1 r1 r2 show ?thesis
          by (auto simp: absorb_def split: sum.splits)
      next
        case go: True
        then obtain u where u: "restart_url e = Inr u" "str_truthy u" by blast
        let ?rec = "multi_start_recording n tn nt r (trace s1 @ [Sleep 2]) (stop_event_set s1) es"
        have eq: "multi_start_recording n tn nt r t stop (e # es) = absorb ?rec"
          using True finished(3) go u by simp
        from Cons.IH [of "trace s1 @ [Sleep 2]" "stop_event_set s1"] r2 o1 r1
        have "length (opened (fst ?rec)) + restarts_after False t
                + (if paused_after False t then 1 else 0)
              = Suc (length (opened t)) + restarts_after False (fst ?rec)"
          by simp
        with True show ?thesis unfolding eq by (auto split: if_splits)
      qed
    qed
  qed
qed

lemma single_restarts:
  "length (opened (fst (single_start_recording tc nt r t es))) + restarts_after False t
     + (if (case es of [] \<Rightarrow> False | e # x \<Rightarrow> str_truthy (live_url e)) \<and> \<not> paused_after False t
        then 0 else 1)
   = Suc (length (opened t)
          + restarts_after False (fst (single_start_recording tc nt r t es)))"
proof (induction es arbitrary: t r)
  case Nil
  show ?case by simp
next
  case (Cons e es)
  show ?case
  proof (cases "str_truthy (live_url e)")
    case False
    then show ?thesis by simp
  next
    case True
    show ?thesis
    proof (cases rule: single_session_cases [of tc nt r t e])
      case (running evs)
      with True show ?thesis by (simp add: restarts_simps)
    next
      case (finished evs s1 go)
      have o1: "length (opened (trace s1)) = Suc (length (opened t))"
        using finished(1,3) by (auto simp: loop_events_opened)
      have r1: "restarts_after False (trace s1)
          = restarts_after False t + (if paused_after False t then 1 else 0)"
        using finished(1,3) by (auto simp: restarts_simps)
      have r2: "restarts_after False (trace s1 @ [Sleep 2]) = restarts_after False (trace s1)"
        "paused_after False (trace s1 @ [Sleep 2])"
        by (simp_all add: restarts_simps)
      show ?thesis
      proof (cases "go \<and> (\<exists>u. restart_url e = Inr u \<and> str_truthy u)")
        case False
        with True finished(2) o1 r1 r2 show ?thesis
          by (auto simp: absorb_def split: sum.splits)
      next
        case go: True
        then obtain u where u: "restart_url e = Inr u" "str_truthy u" by blast
        let ?rec = "single_start_recording tc nt (with_new_detector r u) (trace s1 @ [Sleep 2]) es"
        have eq: "single_start_recording tc nt r t (e # es) = absorb ?rec"
          using True finished(2) go u by simp
        from Cons.IH [of "with_new_detector r u" "trace s1 @ [Sleep 2]"] r2 o1 r1
        have "length (opened (fst ?rec)) + restarts_after False t
                + (if paused_after False t then 1 else 0)
              = Suc (length (opened t)) + restarts_after False (fst ?rec)"
          by simp
        with True show ?thesis unfolding eq by (auto split: if_splits)
      qed
    qed
  qed
qed

lemma distinct_paths_iff_dates:
  "distinct (map (multi_path_of n tn nt r) xs) = distinct (map current_date xs)"
  "distinct (map (single_path_of nt r) xs) = distinct (map current_date xs)"
proof -
  have m: "map (multi_path_of n tn nt r) xs
      = map (\<lambda>d. multi_output_path n tn nt (rec_output r) (rec_user r) d) (map current_date xs)"
    by (simp add: multi_path_of_def comp_def)
  have "inj (\<lambda>d. multi_output_path n tn nt (rec_output r) (rec_user r) d)"
    by (rule injI) (auto dest: multi_path_date_inj)
  then show "distinct (map (multi_path_of n tn nt r) xs) = distinct (map current_date xs)"
    unfolding m by (auto simp: distinct_map inj_on_def)
  have s: "map (single_path_of nt r) xs
      = map (\<lambda>d. single_output_path nt (rec_output r) (rec_user r) d) (map current_date xs)"
    by (simp add: single_path_of_def comp_def)
  have "inj (\<lambda>d. single_output_path nt (rec_output r) (rec_user r) d)"
    by (rule injI) (auto dest: single_path_date_inj)
  then show "distinct (map (single_path_of nt r) xs) = distinct (map current_date xs)"
    unfolding s by (auto simp: distinct_map inj_on_def)
qed

lemma same_second_run:
  "multi_start_recording 1 (stream_key 0) False alice [] False [change_env, same_second_env] =
     ([MakeDirs ''alice/'', OpenFile ''alice/TK_alice_2024.05.01_09-00-00_flv.mp4'',
       StartMonitor (Some ''http://pull/low.flv'') (JInt 5), CheckStop,
       Download ''http://pull/low.flv'', CheckStop, Write [1], Flush, CloseFile,
       StopMonitor, Convert ''alice/TK_alice_2024.05.01_09-00-00_flv.mp4'', CheckStop,
       Sleep 2,
       MakeDirs ''alice/'', OpenFile ''alice/TK_alice_2024.05.01_09-00-00_flv.mp4'',
       StartMonitor (Some ''http://pull/fresh.flv'') (JInt 5), CheckStop,
       Download ''http://pull/fresh.flv'', CheckStop, Write [2], Flush, CheckStop, Flush,
       CloseFile, StopMonitor, Convert ''alice/TK_alice_2024.05.01_09-00-00_flv.mp4''],
      Returned)"
  by (simp add: same_second_env_def change_env_def resumed_env_def restart_config_def alice_def
      loop_eval session_eval config_eval path_eval)

text \<open>
  Claim C6, as amended. The output path of a session is the folder of the user under the
  output root, then \<open>TK_\<close>, the user, the timestamp taken at the start of the session,
  the suffix \<open>_<thread name>\<close> exactly when more than one target is recorded, and
  \<open>_flv.mp4\<close>; the session makes the folder before it opens the file. A run whose first
  live URL is found opens one file more than it has restarts, and none otherwise. The
  files opened are the paths of the sessions started, in order, and they are pairwise
  distinct exactly when the timestamps of those sessions are. With more than one target,
  the paths of two different streams differ whatever the users and the timestamps are.
\<close>

theorem output_paths_distinct:
  "multi_output_path n tn nt out u d
     = user_folder nt out u @ ''TK_'' @ u @ ''_'' @ d @ (if n > 1 then ''_'' @ tn else [])
         @ ''_flv.mp4''
   \<and> single_output_path nt out u d = user_folder nt out u @ ''TK_'' @ u @ ''_'' @ d @ ''_flv.mp4''
   \<and> (str_truthy (live_url e) \<longrightarrow>
        (\<exists>post. fst (multi_start_recording n tn nt r t stop (e # es)) =
           t @ [MakeDirs (user_folder nt (rec_output r) (rec_user r)),
                OpenFile (multi_path_of n tn nt r e)] @ post)
      \<and> (\<exists>post. fst (single_start_recording tc nt r t (e # es)) =
           t @ [MakeDirs (user_folder nt (rec_output r) (rec_user r)),
                OpenFile (single_path_of nt r e)] @ post))
   \<and> length (opened (fst (multi_start_recording n tn nt r [] stop (e # es))))
       = (if str_truthy (live_url e)
          then Suc (restarts (fst (multi_start_recording n tn nt r [] stop (e # es)))) else 0)
   \<and> length (opened (fst (single_start_recording tc nt r [] (e # es))))
       = (if str_truthy (live_url e)
          then Suc (restarts (fst (single_start_recording tc nt r [] (e # es)))) else 0)
   \<and> (\<exists>k\<le>length es.
         opened (fst (multi_start_recording n tn nt r [] stop es))
           = map (multi_path_of n tn nt r) (take k es)
       \<and> distinct (opened (fst (multi_start_recording n tn nt r [] stop es)))
           = distinct (map current_date (take k es)))
   \<and> (\<exists>k\<le>length es.
         opened (fst (single_start_recording tc nt r [] es))
           = map (single_path_of nt r) (take k es)
       \<and> distinct (opened (fst (single_start_recording tc nt r [] es)))
           = distinct (map current_date (take k es)))
   \<and> (distinct (map current_date es) \<longrightarrow>
        distinct (opened (fst (multi_start_recording n tn nt r [] stop es)))
      \<and> distinct (opened (fst (single_start_recording tc nt r [] es))))
   \<and> (n > 1 \<and> i \<noteq> j \<longrightarrow>
        multi_output_path n (stream_key i) nt out u d
          \<noteq> multi_output_path n (stream_key j) nt out' u' d')"
proof -
  have a: "multi_output_path n tn nt out u d
     = user_folder nt out u @ ''TK_'' @ u @ ''_'' @ d @ (if n > 1 then ''_'' @ tn else [])
         @ ''_flv.mp4''"
    "single_output_path nt out u d = user_folder nt out u @ ''TK_'' @ u @ ''_'' @ d @ ''_flv.mp4''"
    by (simp_all add: multi_output_path_def single_output_path_def output_suffix_def)
  have b: "str_truthy (live_url e) \<longrightarrow>
        (\<exists>post. fst (multi_start_recording n tn nt r t stop (e # es)) =
           t @ [MakeDirs (user_folder nt (rec_output r) (rec_user r)),
                OpenFile (multi_path_of n tn nt r e)] @ post)
      \<and> (\<exists>post. fst (single_start_recording tc nt r t (e # es)) =
           t @ [MakeDirs (user_folder nt (rec_output r) (rec_user r)),
                OpenFile (single_path_of nt r e)] @ post)"
    using multi_starts_with_header [of e n tn nt r t stop es]
      single_starts_with_header [of e tc nt r t es]
    by (auto simp: multi_header_def single_header_def multi_path_of_def single_path_of_def)
  have cm: "length (opened (fst (multi_start_recording n tn nt r [] stop (e # es))))
       = (if str_truthy (live_url e)
          then Suc (restarts (fst (multi_start_recording n tn nt r [] stop (e # es)))) else 0)"
  proof (cases "str_truthy (live_url e)")
    case True
    with multi_restarts [of n tn nt r "[]" stop "e # es"] show ?thesis
      by (simp add: restarts_def del: multi_start_recording.simps)
  next
    case False
    then show ?thesis by simp
  qed
  have cs: "length (opened (fst (single_start_recording tc nt r [] (e # es))))
       = (if str_truthy (live_url e)
          then Suc (restarts (fst (single_start_recording tc nt r [] (e # es)))) else 0)"
  proof (cases "str_truthy (live_url e)")
    case True
    with single_restarts [of tc nt r "[]" "e # es"] show ?thesis
      by (simp add: restarts_def del: single_start_recording.simps)
  next
    case False
    then show ?thesis by simp
  qed
  obtain km where km: "km \<le> length es"
    "opened (fst (multi_start_recording n tn nt r [] stop es))
       = map (multi_path_of n tn nt r) (take km es)"
    using multi_opened [of es n tn nt r "[]" stop] by auto
  obtain ks where ks: "ks \<le> length es"
    "opened (fst (single_start_recording tc nt r [] es))
       = map (single_path_of nt r) (take ks es)"
    using single_opened [of es tc nt r "[]"] by auto
  have dm: "\<exists>k\<le>length es.
         opened (fst (multi_start_recording n tn nt r [] stop es))
           = map (multi_path_of n tn nt r) (take k es)
       \<and> distinct (opened (fst (multi_start_recording n tn nt r [] stop es)))
           = distinct (map current_date (take k es))"
    using km by (intro exI [of _ km]) (simp add: distinct_paths_iff_dates)
  have ds: "\<exists>k\<le>length es.
         opened (fst (single_start_recording tc nt r [] es))
           = map (single_path_of nt r) (take k es)
       \<and> distinct (opened (fst (single_start_recording tc nt r [] es)))
           = distinct (map current_date (take k es))"
    using ks by (intro exI [of _ ks]) (simp add: distinct_paths_iff_dates)
  have c: "distinct (map current_date es) \<longrightarrow>
        distinct (opened (fst (multi_start_recording n tn nt r [] stop es)))
      \<and> distinct (opened (fst (single_start_recording tc nt r [] es)))"
    unfolding km(2) ks(2) by (simp add: distinct_paths_of_dates)
  have d: "n > 1 \<and> i \<noteq> j \<longrightarrow>
        multi_output_path n (stream_key i) nt out u d
          \<noteq> multi_output_path n (stream_key j) nt out' u' d'"
    using stream_paths_differ [of n i j nt out u d out' u' d'] by blast
  from a b cm cs dm ds c d show ?thesis by blast
qed

theorem output_paths_distinct_witness:
  "str_truthy (live_url change_env)
   \<and> restarts (fst (multi_start_recording 2 (stream_key 0) False alice [] False
                      [change_env, resumed_env])) = 1
   \<and> length (opened (fst (multi_start_recording 2 (stream_key 0) False alice [] False
                      [change_env, resumed_env]))) = 2
   \<and> distinct (map current_date [change_env, resumed_env, offline_env])
   \<and> distinct (opened (fst (multi_start_recording 2 (stream_key 0) False alice [] False
                             [change_env, resumed_env, offline_env])))
   \<and> (2::nat) > 1 \<and> (0::nat) \<noteq> 1
   \<and> multi_output_path 2 (stream_key 0) False None ''alice'' ''2024.05.01_09-00-00''
        \<noteq> multi_output_path 2 (stream_key 1) False None ''alice'' ''2024.05.01_09-00-00''"
proof -
  have h: "distinct (map current_date [change_env, resumed_env, offline_env])"
    by (simp add: change_env_def resumed_env_def offline_env_def)
  note t = output_paths_distinct [where es = "[change_env, resumed_env, offline_env]"
      and n = 2 and tn = "stream_key 0" and nt = False and r = alice and stop = False
      and i = 0 and j = 1 and out = None and u = "''alice''" and d = "''2024.05.01_09-00-00''"
      and out' = None and u' = "''alice''" and d' = "''2024.05.01_09-00-00''"]
  note c = output_paths_distinct [where e = change_env and es = "[resumed_env]"
      and n = 2 and tn = "stream_key 0" and nt = False and r = alice and stop = False]
  have n: "(2::nat) > 1" "(0::nat) \<noteq> 1" by simp_all
  have u: "str_truthy (live_url change_env)" by (simp add: change_env_def str_truthy_def)
  have r: "restarts (fst (multi_start_recording 2 (stream_key 0) False alice [] False
                      [change_env, resumed_env])) = 1"
    by (simp add: restarts_def change_env_def resumed_env_def restart_config_def alice_def
        loop_eval session_eval config_eval path_eval)
  from c u r have l: "length (opened (fst (multi_start_recording 2 (stream_key 0) False alice []
      False [change_env, resumed_env]))) = 2"
    by simp
  from t h n u r l show ?thesis by blast
qed

text \<open>
  Claim C6 as stated fails: when the session after a restart reads the same timestamp as
  the session before it, one restart gives two opens of one path, and the second open,
  in mode \<open>wb\<close>, truncates the file of the first.
\<close>

theorem same_second_overwrites:
  "restarts (fst (multi_start_recording 1 (stream_key 0) False alice [] False
                    [change_env, same_second_env])) = 1
   \<and> opened (fst (multi_start_recording 1 (stream_key 0) False alice [] False
                    [change_env, same_second_env]))
       = [''alice/TK_alice_2024.05.01_09-00-00_flv.mp4'',
          ''alice/TK_alice_2024.05.01_09-00-00_flv.mp4'']
   \<and> \<not> distinct (opened (fst (multi_start_recording 1 (stream_key 0) False alice [] False
                    [change_env, same_second_env])))"
  unfolding same_second_run by (simp add: restarts_def)

subsection \<open>Automatic mode\<close>







text \<open>
  The single-stream recorder on unexpected errors: the handler logs and the loop goes on,
  so a task whose every room lookup fails is still running after any number of
  iterations, without a single sleep.
\<close>

lemma single_automatic_keeps_retrying:
  "\<forall>it\<in>set its. room_lookup it = Some OtherException \<Longrightarrow>
   single_automatic tc iv t its = (t @ replicate (length its) LookupRoom, StillRunning)"
proof (induction its arbitrary: t)
  case Nil
  show ?case by simp
next
  case (Cons it its)
  then show ?case
    by (simp add: single_try_body_def is_Exception_def replicate_app_Cons_same)
qed




subsection \<open>Stopping the monitor\<close>

lemma monitor_loop_from_not_monitoring: "\<not> is_monitoring (monitor_loop_from cf d ps)"
  by (induction cf d ps rule: monitor_loop_from.induct) simp_all

lemma thread_completes_not_monitoring:
  "\<not> is_monitoring d \<Longrightarrow> \<not> is_monitoring (thread_completes d pos)"
  by (cases pos) (simp_all add: monitor_loop_from_not_monitoring)

lemma stop_monitoring_not_monitoring: "\<not> is_monitoring (fst (stop_monitoring d pos))"
  by (simp add: stop_monitoring_def Let_def thread_completes_not_monitoring)

lemma stop_monitoring_sets_event:
  "is_monitoring d \<Longrightarrow> stop_event (fst (stop_monitoring d pos))"
proof -
  have a: "\<And>cf d ps. stop_event (monitor_loop_from cf d ps) = stop_event d"
  proof -
    fix cf d ps
    show "stop_event (monitor_loop_from cf d ps) = stop_event d"
      by (induction cf d ps rule: monitor_loop_from.induct)
         (simp_all add: on_probe_success_def Let_def split: option.splits)
  qed
  assume "is_monitoring d"
  then show ?thesis
    by (cases pos) (simp_all add: stop_monitoring_def Let_def a)
qed

text \<open>
  Claim C4, as amended. \<open>stop_monitoring\<close> clears \<open>is_monitoring\<close>, sets the stop event
  and waits for the thread, for five seconds at most. When the thread can leave its loop
  within that bound (at once when it is in its wait between probes, after the probe in
  flight otherwise), the call returns after the thread has exited and no callback is
  invoked after the return. A call on a detector that is not monitoring changes nothing,
  and so does a second call.
\<close>

theorem stop_waits_for_the_loop_up_to_five_seconds:
  "(is_monitoring d \<and> monitor_thread d \<noteq> NoThread \<and> time_to_exit pos \<le> join_timeout \<longrightarrow>
      stopped_cleanly (stop_monitoring d pos))
   \<and> time_to_exit Waiting = 0
   \<and> (\<not> is_monitoring d \<longrightarrow> stop_monitoring d pos = (d, pos))
   \<and> stop_monitoring (fst (stop_monitoring d pos)) (snd (stop_monitoring d pos))
        = stop_monitoring d pos
   \<and> \<not> is_monitoring (fst (stop_monitoring d pos))
   \<and> (is_monitoring d \<longrightarrow> stop_event (fst (stop_monitoring d pos)))"
proof -
  have a: "is_monitoring d \<and> monitor_thread d \<noteq> NoThread \<and> time_to_exit pos \<le> join_timeout \<longrightarrow>
      stopped_cleanly (stop_monitoring d pos)"
    by (simp add: stop_monitoring_def stopped_cleanly_def Let_def)
  have b: "\<not> is_monitoring d \<longrightarrow> stop_monitoring d pos = (d, pos)"
    by (simp add: stop_monitoring_def)
  have "\<not> is_monitoring (fst (stop_monitoring d pos))"
    by (rule stop_monitoring_not_monitoring)
  then have c: "stop_monitoring (fst (stop_monitoring d pos)) (snd (stop_monitoring d pos))
        = stop_monitoring d pos"
    by (subst stop_monitoring_def) simp
  from a b c stop_monitoring_not_monitoring [of d pos] stop_monitoring_sets_event [of d pos]
  show ?thesis by simp
qed

theorem stop_waits_for_the_loop_up_to_five_seconds_witness:
  "is_monitoring monitoring_720p \<and> monitor_thread monitoring_720p \<noteq> NoThread
   \<and> time_to_exit (Probing 3 (Some p1080) 0) \<le> join_timeout
   \<and> stopped_cleanly (stop_monitoring monitoring_720p (Probing 3 (Some p1080) 0))
   \<and> fired (fst (stop_monitoring monitoring_720p (Probing 3 (Some p1080) 0))) = [(p720, p1080)]"
proof -
  have h: "is_monitoring monitoring_720p" "monitor_thread monitoring_720p \<noteq> NoThread"
    "time_to_exit (Probing 3 (Some p1080) 0) \<le> join_timeout"
    by (simp_all add: monitoring_720p_def start_monitoring_def new_detector_def join_timeout_def)
  have f: "fired (fst (stop_monitoring monitoring_720p (Probing 3 (Some p1080) 0)))
      = [(p720, p1080)]"
    by (simp add: stop_monitoring_def monitoring_720p_def start_monitoring_def new_detector_def
        join_timeout_def on_probe_success_def p720_def p1080_def Let_def)
  from stop_waits_for_the_loop_up_to_five_seconds
    [of monitoring_720p "Probing 3 (Some p1080) 0"] h f
  show ?thesis by blast
qed

text \<open>
  Claim C4 as stated fails. The probe may run for ten seconds and the join waits for
  five: with a probe in flight that needs eight more seconds, \<open>stop_monitoring\<close>
  returns while the thread is still in its loop, and when the probe then reports a new
  resolution the thread invokes the callback, after the return.
\<close>

theorem stop_returns_before_slow_probe_ends:
  "8 \<le> probe_timeout
   \<and> snd (stop_monitoring monitoring_720p (Probing 8 (Some p1080) 0)) \<noteq> Exited
   \<and> fired (fst (stop_monitoring monitoring_720p (Probing 8 (Some p1080) 0))) = []
   \<and> fired (thread_completes (fst (stop_monitoring monitoring_720p (Probing 8 (Some p1080) 0)))
                (snd (stop_monitoring monitoring_720p (Probing 8 (Some p1080) 0))))
        = [(p720, p1080)]
   \<and> \<not> stopped_cleanly (stop_monitoring monitoring_720p (Probing 8 (Some p1080) 0))"
  by (simp add: stop_monitoring_def stopped_cleanly_def monitoring_720p_def start_monitoring_def
      new_detector_def join_timeout_def probe_timeout_def on_probe_success_def p720_def
      p1080_def Let_def)

end
